theory Spec2Isabelle
  imports Complex_Main "HOL-Library.AList" "HOL-Library.Sublist" "HOL-Library.Char_ord"
begin

section \<open>Strings of the host language\<close>

text \<open>
  The detectors work on JavaScript strings. A string is modelled as a list of
  characters, each character being one code unit in the range U+0000..U+00FF
  (ASCII and Latin-1). Indices and lengths count code units, as the source's
  \<^verbatim>\<open>length\<close>, \<^verbatim>\<open>indexOf\<close> and \<^verbatim>\<open>slice\<close> do.
\<close>

definition inRange :: "char \<Rightarrow> char \<Rightarrow> char \<Rightarrow> bool" where
  "inRange lo hi c = (lo \<le> c \<and> c \<le> hi)"

text \<open>\<^verbatim>\<open>String.prototype.toLowerCase\<close>, character by character: the upper-case
  letters of ASCII and of Latin-1 (all of U+00C0..U+00DE but the multiplication
  sign U+00D7) move up by 32; every other character stays.\<close>

definition isUpperChar :: "char \<Rightarrow> bool" where
  "isUpperChar c =
     (if inRange (CHR ''A'') (CHR ''Z'') c then True
      else if inRange (CHR 0xC0) (CHR 0xDE) c then c \<noteq> CHR 0xD7 else False)"

text \<open>The codes of these letters have bit 5 (of value 32) clear, and the codes of
  the lower-case letters have it set: adding 32 to the one and subtracting 32 from
  the other is setting and clearing that bit.\<close>

fun withBit5 :: "bool \<Rightarrow> char \<Rightarrow> char" where
  "withBit5 b (Char b0 b1 b2 b3 b4 b5 b6 b7) = Char b0 b1 b2 b3 b4 b b6 b7"

definition toLowerChar :: "char \<Rightarrow> char" where
  "toLowerChar c = (if isUpperChar c then withBit5 True c else c)"

definition toLowerCase :: "string \<Rightarrow> string" where
  "toLowerCase s = map toLowerChar s"

text \<open>\<^verbatim>\<open>String.prototype.trim\<close> strips white space and line terminators from both
  ends: tab, line feed, vertical tab, form feed, carriage return, space and the
  no-break space U+00A0.\<close>

definition isWhiteSpace :: "char \<Rightarrow> bool" where
  "isWhiteSpace c = (c \<in> set [CHR 0x09, CHR 0x0A, CHR 0x0B, CHR 0x0C, CHR 0x0D, CHR 0x20, CHR 0xA0])"

definition trim :: "string \<Rightarrow> string" where
  "trim s = rev (dropWhile isWhiteSpace (rev (dropWhile isWhiteSpace s)))"

text \<open>\<^verbatim>\<open>content.indexOf(pattern)\<close>: the index of the first occurrence, \<open>None\<close> for the
  source's \<open>-1\<close>. The empty pattern occurs at index 0 of every string.\<close>

fun indexOf :: "string \<Rightarrow> string \<Rightarrow> nat option" where
  "indexOf [] p = (if p = [] then Some 0 else None)"
| "indexOf (c # cs) p =
     (if prefix p (c # cs) then Some 0 else map_option Suc (indexOf cs p))"

definition includesStr :: "string \<Rightarrow> string \<Rightarrow> bool" where
  "includesStr content p = (indexOf content p \<noteq> None)"

text \<open>\<^verbatim>\<open>content.slice(start, end)\<close> for indices within the string.\<close>

definition slice :: "string \<Rightarrow> nat \<Rightarrow> nat \<Rightarrow> string" where
  "slice s start end' = take (end' - start) (drop start s)"

section \<open>Regular expressions\<close>

text \<open>
  The signature catalog uses regular-expression literals. Their syntax tree covers
  what the catalog uses: characters, the dot, character classes (with \<^verbatim>\<open>\d\<close> and
  \<^verbatim>\<open>\w\<close> as classes), the word boundary \<^verbatim>\<open>\b\<close>, sequence, alternation, the greedy
  quantifiers \<^verbatim>\<open>*\<close>, \<^verbatim>\<open>+\<close>, \<^verbatim>\<open>?\<close> and a capturing group. No expression of the catalog
  has more than one capturing group, so \<open>Group\<close> stands for group number 1.
\<close>

datatype cls_item = CChar char | CRange char char

datatype regex =
    Empty
  | Chr char
  | Dot
  | Cls bool "cls_item list"
  | WordBoundary
  | Seq regex regex
  | Alt regex regex
  | Star regex
  | Plus regex
  | Opt regex
  | Group regex

record RegExp =
  source :: regex
  ignoreCase :: bool

text \<open>Canonicalisation of a character under the \<^verbatim>\<open>i\<close> flag is its upper-case form:
  the lower-case letters of ASCII and of Latin-1 (all of U+00E0..U+00FE but the
  division sign U+00F7) move down by 32. U+00DF, U+00FF and U+00B5 have no upper-case
  form that is one Latin-1 character and stay distinct from every other character.\<close>

definition isLowerChar :: "char \<Rightarrow> bool" where
  "isLowerChar c =
     (if inRange (CHR ''a'') (CHR ''z'') c then True
      else if inRange (CHR 0xE0) (CHR 0xFE) c then c \<noteq> CHR 0xF7 else False)"

definition canonicalize :: "char \<Rightarrow> char" where
  "canonicalize c = (if isLowerChar c then withBit5 False c else c)"

text \<open>Two characters are the same for the matcher when, under the \<^verbatim>\<open>i\<close> flag, their
  canonical forms are equal, and without it, when they are equal.\<close>

definition charEq :: "bool \<Rightarrow> char \<Rightarrow> char \<Rightarrow> bool" where
  "charEq ic a c = (if ic then canonicalize a = canonicalize c else a = c)"

definition isLineTerminator :: "char \<Rightarrow> bool" where
  "isLineTerminator c = (c = CHR 0x0A \<or> c = CHR 0x0D)"

definition isWordChar :: "char \<Rightarrow> bool" where
  "isWordChar c =
     (if inRange (CHR ''a'') (CHR ''z'') c then True
      else if inRange (CHR ''A'') (CHR ''Z'') c then True
      else if inRange (CHR ''0'') (CHR ''9'') c then True
      else c = CHR ''_'')"

text \<open>A class item matches a character when the class holds a character with the
  same canonical form; without the \<^verbatim>\<open>i\<close> flag that is membership.\<close>

fun itemMatches :: "bool \<Rightarrow> char \<Rightarrow> cls_item \<Rightarrow> bool" where
  "itemMatches ic c (CChar a) = charEq ic a c"
| "itemMatches ic c (CRange lo hi) =
     (if inRange lo hi c then True
      else if ic then (inRange lo hi (canonicalize c) \<or> inRange lo hi (toLowerChar c))
      else False)"

definition clsMatches :: "bool \<Rightarrow> bool \<Rightarrow> cls_item list \<Rightarrow> char \<Rightarrow> bool" where
  "clsMatches ic negated items c = (list_ex (itemMatches ic c) items \<noteq> negated)"

definition digitCls :: regex where
  "digitCls = Cls False [CRange (CHR ''0'') (CHR ''9'')]"

definition wordCls :: regex where
  "wordCls = Cls False [CRange (CHR ''a'') (CHR ''z''), CRange (CHR ''A'') (CHR ''Z''),
                        CRange (CHR ''0'') (CHR ''9''), CChar (CHR ''_'')]"

text \<open>A run of literal characters, and a sequence of expressions.\<close>

fun lit :: "string \<Rightarrow> regex" where
  "lit [] = Empty"
| "lit [c] = Chr c"
| "lit (c # cs) = Seq (Chr c) (lit cs)"

fun seqs :: "regex list \<Rightarrow> regex" where
  "seqs [] = Empty"
| "seqs [r] = r"
| "seqs (r # rs) = Seq r (seqs rs)"

subsection \<open>The backtracking matcher\<close>

text \<open>
  A matcher state holds the characters before the current position (nearest
  first), the characters from the current position on, and the text captured by
  group 1, if any. \<open>rmatch\<close> returns the states in which a match of the expression
  that starts in the given state can end, in the order in which the backtracking
  matcher of the language tries them: the left alternative first, the longest
  repetition first. The first one is the match the engine reports.
\<close>

datatype mstate = MState (before: string) (rest: string) (group1: "string option")

definition stepChar :: "(char \<Rightarrow> bool) \<Rightarrow> mstate \<Rightarrow> mstate list" where
  "stepChar P s =
     (case rest s of
        [] \<Rightarrow> []
      | c # cs \<Rightarrow> if P c then [MState (c # before s) cs (group1 s)] else [])"

definition atWordBoundary :: "mstate \<Rightarrow> bool" where
  "atWordBoundary s =
     ((case before s of [] \<Rightarrow> False | a # _ \<Rightarrow> isWordChar a)
      \<noteq> (case rest s of [] \<Rightarrow> False | b # _ \<Rightarrow> isWordChar b))"

definition consumed :: "mstate \<Rightarrow> mstate \<Rightarrow> string" where
  "consumed s s' = take (length (rest s) - length (rest s')) (rest s)"

primrec hasGroup :: "regex \<Rightarrow> bool" where
  "hasGroup Empty = False"
| "hasGroup (Chr a) = False"
| "hasGroup Dot = False"
| "hasGroup (Cls n items) = False"
| "hasGroup WordBoundary = False"
| "hasGroup (Seq r1 r2) = (hasGroup r1 \<or> hasGroup r2)"
| "hasGroup (Alt r1 r2) = (hasGroup r1 \<or> hasGroup r2)"
| "hasGroup (Star r) = hasGroup r"
| "hasGroup (Plus r) = hasGroup r"
| "hasGroup (Opt r) = hasGroup r"
| "hasGroup (Group r) = True"

text \<open>Every iteration of a quantifier starts with the captures of the groups
  inside the quantified expression cleared.\<close>

definition clearGroups :: "regex \<Rightarrow> mstate \<Rightarrow> mstate" where
  "clearGroups r s = (if hasGroup r then MState (before s) (rest s) None else s)"

text \<open>The greedy star: one more iteration first, then the exit. An iteration that
  consumes nothing is rejected, so the number of iterations is bounded by the
  number of characters left, which is the fuel \<open>n\<close>.\<close>

primrec iterate :: "(mstate \<Rightarrow> mstate list) \<Rightarrow> nat \<Rightarrow> mstate \<Rightarrow> mstate list" where
  "iterate f 0 s = [s]"
| "iterate f (Suc n) s =
     concat (map (\<lambda>s'. if length (rest s') < length (rest s) then iterate f n s' else []) (f s))
     @ [s]"

primrec rmatch :: "bool \<Rightarrow> regex \<Rightarrow> mstate \<Rightarrow> mstate list" where
  "rmatch ic Empty = (\<lambda>s. [s])"
| "rmatch ic (Chr a) = stepChar (charEq ic a)"
| "rmatch ic Dot = stepChar (\<lambda>c. \<not> isLineTerminator c)"
| "rmatch ic (Cls negated items) = stepChar (clsMatches ic negated items)"
| "rmatch ic WordBoundary = (\<lambda>s. if atWordBoundary s then [s] else [])"
| "rmatch ic (Seq r1 r2) = (\<lambda>s. concat (map (rmatch ic r2) (rmatch ic r1 s)))"
| "rmatch ic (Alt r1 r2) = (\<lambda>s. rmatch ic r1 s @ rmatch ic r2 s)"
| "rmatch ic (Star r) =
     (\<lambda>s. iterate (\<lambda>t. rmatch ic r (clearGroups r t)) (length (rest s)) s)"
| "rmatch ic (Plus r) =
     (\<lambda>s. concat (map (\<lambda>s'. iterate (\<lambda>t. rmatch ic r (clearGroups r t)) (length (rest s')) s')
                       (rmatch ic r (clearGroups r s))))"
| "rmatch ic (Opt r) =
     (\<lambda>s. filter (\<lambda>s'. length (rest s') < length (rest s)) (rmatch ic r (clearGroups r s)) @ [s])"
| "rmatch ic (Group r) =
     (\<lambda>s. map (\<lambda>s'. MState (before s') (rest s') (Some (consumed s s'))) (rmatch ic r s))"

text \<open>
  The search of \<^verbatim>\<open>RegExp.prototype.exec\<close> for an expression without the \<^verbatim>\<open>g\<close> and \<^verbatim>\<open>y\<close>
  flags (no expression of the catalog has them): the match is tried at index 0, 1,
  ... up to the length of the text, and the first success is reported as the
  index, the matched text (group 0) and the text of group 1.
\<close>

record Match =
  index :: nat
  group0 :: string
  capture1 :: "string option"

fun execFrom :: "bool \<Rightarrow> regex \<Rightarrow> string \<Rightarrow> string \<Rightarrow> Match option" where
  "execFrom ic r pre [] =
     (case rmatch ic r (MState pre [] None) of
        [] \<Rightarrow> None
      | s # _ \<Rightarrow> Some \<lparr>index = length pre, group0 = [], capture1 = group1 s\<rparr>)"
| "execFrom ic r pre (c # cs) =
     (case rmatch ic r (MState pre (c # cs) None) of
        [] \<Rightarrow> execFrom ic r (c # pre) cs
      | s # _ \<Rightarrow> Some \<lparr>index = length pre,
                       group0 = consumed (MState pre (c # cs) None) s,
                       capture1 = group1 s\<rparr>)"

definition exec :: "RegExp \<Rightarrow> string \<Rightarrow> Match option" where
  "exec re content = execFrom (ignoreCase re) (source re) [] content"

text \<open>\<^verbatim>\<open>pattern.test(content)\<close> and \<^verbatim>\<open>content.match(pattern)\<close> both run \<open>exec\<close>.\<close>

definition test :: "RegExp \<Rightarrow> string \<Rightarrow> bool" where
  "test re content = (exec re content \<noteq> None)"

section \<open>The data model\<close>

datatype TechnologyCategory =
    frontend_framework | backend_framework | css_framework | cms | ecommerce | server
  | runtime | analytics | tracking | marketing | library | other

datatype ConfidenceLevel = high | medium | low

datatype AnalyticsType = analytics_type | tracking_type | marketing_type

record DetectedTechnology =
  name :: string
  version :: "string option"
  confidence :: ConfidenceLevel
  category :: TechnologyCategory
  evidence :: "string option"

text \<open>The fields of the other records carry a prefix, since a field name belongs to
  one record type: \<open>an_\<close> for a detected analytics tool, \<open>sig_\<close> for a framework
  signature, \<open>hdr_\<close> for a header signature and its rules, \<open>as_\<close> for an analytics
  signature.\<close>

record DetectedAnalytics =
  an_name :: string
  an_type :: AnalyticsType
  an_evidence :: "string option"

text \<open>A pattern of a signature is a string or a regular expression.\<close>

datatype StringOrRegExp = Str string | Rx RegExp

record SignaturePattern =
  sig_name :: string
  sig_patterns :: "StringOrRegExp list"
  sig_category :: TechnologyCategory
  versionPattern :: "RegExp option"

record HeaderRule =
  pattern :: StringOrRegExp
  technology :: string
  hdr_category :: TechnologyCategory

record HeaderSignature =
  header :: string
  hdr_patterns :: "HeaderRule list"

record AnalyticsSignature =
  as_name :: string
  as_type :: AnalyticsType
  as_patterns :: "StringOrRegExp list"

text \<open>The response envelope. Its \<open>ok\<close> field is always true for the detectors; the
  time stamp and the constant pagination field of \<^verbatim>\<open>meta\<close> are left out. \<open>data\<close> is the
  \<^verbatim>\<open>detected\<close> list of the data object.\<close>

record 'a ResponseEnvelope =
  ok :: bool
  data :: "'a list"
  warnings :: "string list"

definition createResponse :: "'a list \<Rightarrow> string list \<Rightarrow> 'a ResponseEnvelope" where
  "createResponse d ws = \<lparr>ok = True, data = d, warnings = ws\<rparr>"

section \<open>The signature catalog\<close>

definition rx :: "regex \<Rightarrow> StringOrRegExp" where
  "rx r = Rx \<lparr>source = r, ignoreCase = False\<rparr>"

definition rxi :: "regex \<Rightarrow> StringOrRegExp" where
  "rxi r = Rx \<lparr>source = r, ignoreCase = True\<rparr>"

definition wordOf :: "string \<Rightarrow> regex" where
  "wordOf w = seqs [WordBoundary, lit w, WordBoundary]"

text \<open>\<^verbatim>\<open>(\d+\.\d+\.\d+)\<close>, the capturing group of most version patterns.\<close>

definition semverGroup :: regex where
  "semverGroup = Group (seqs [Plus digitCls, Chr (CHR ''.''), Plus digitCls, Chr (CHR ''.''), Plus digitCls])"

definition dotOrDash :: regex where
  "dotOrDash = Cls False [CChar (CHR ''.''), CChar (CHR ''-'')]"

text \<open>\<^verbatim>\<open>class="[^"]*\b\<close>, the start of the two class-attribute patterns.\<close>

definition classAttr :: regex where
  "classAttr = seqs [lit ''class='', Chr (CHR 0x22), Star (Cls True [CChar (CHR 0x22)]), WordBoundary]"

definition headerRule :: "StringOrRegExp \<Rightarrow> string \<Rightarrow> TechnologyCategory \<Rightarrow> HeaderRule" where
  "headerRule p t c = \<lparr>pattern = p, technology = t, hdr_category = c\<rparr>"

definition headerSignatures :: "HeaderSignature list" where
  "headerSignatures = [
     \<lparr>header = ''x-powered-by'', hdr_patterns = [
        headerRule (rxi (lit ''express'')) ''Express'' backend_framework,
        headerRule (rxi (lit ''php'')) ''PHP'' runtime,
        headerRule (rxi (lit ''asp.net'')) ''ASP.NET'' backend_framework,
        headerRule (rxi (lit ''next.js'')) ''Next.js'' frontend_framework]\<rparr>,
     \<lparr>header = ''server'', hdr_patterns = [
        headerRule (rxi (lit ''nginx'')) ''nginx'' server,
        headerRule (rxi (lit ''apache'')) ''Apache'' server,
        headerRule (rxi (lit ''cloudflare'')) ''Cloudflare'' server,
        headerRule (rxi (lit ''microsoft-iis'')) ''Microsoft IIS'' server]\<rparr>,
     \<lparr>header = ''x-drupal-cache'', hdr_patterns = [
        headerRule (rx (Plus Dot)) ''Drupal'' cms]\<rparr>,
     \<lparr>header = ''x-generator'', hdr_patterns = [
        headerRule (rxi (lit ''wordpress'')) ''WordPress'' cms,
        headerRule (rxi (lit ''ghost'')) ''Ghost'' cms,
        headerRule (rxi (lit ''drupal'')) ''Drupal'' cms,
        headerRule (rxi (lit ''joomla'')) ''Joomla'' cms]\<rparr>,
     \<lparr>header = ''x-shopify-stage'', hdr_patterns = [
        headerRule (rx (Plus Dot)) ''Shopify'' ecommerce]\<rparr>]"

definition frameworkSignatures :: "SignaturePattern list" where
  "frameworkSignatures = [
     \<lparr>sig_name = ''React'',
      sig_patterns = [rxi (wordOf ''react''), rx (wordOf ''ReactDOM''), rx (lit ''_reactRootContainer''),
        rx (lit ''data-reactroot''), rx (lit ''react.production.min.js''), rx (lit ''react-dom'')],
      sig_category = frontend_framework,
      versionPattern = Some \<lparr>source = seqs [lit ''react@'', semverGroup], ignoreCase = False\<rparr>\<rparr>,
     \<lparr>sig_name = ''Vue.js'',
      sig_patterns = [rx (wordOf ''Vue''), rx (lit ''__VUE__''), rx (wordOf ''v-if''), rx (wordOf ''v-for''),
        rx (wordOf ''v-model''), rx (lit ''vue.runtime''), rx (lit ''vue.global'')],
      sig_category = frontend_framework,
      versionPattern = Some \<lparr>source = seqs [lit ''vue@'', semverGroup], ignoreCase = False\<rparr>\<rparr>,
     \<lparr>sig_name = ''Angular'',
      sig_patterns = [rx (lit ''ng-version''), rx (lit ''angular.js''), rx (lit ''angular.min.js''),
        rx (wordOf ''ng-app''), rx (wordOf ''ng-controller''), rx (lit ''@angular/core'')],
      sig_category = frontend_framework,
      versionPattern = Some \<lparr>source = seqs [lit ''ng-version='', Chr (CHR 0x22), semverGroup, Chr (CHR 0x22)],
                              ignoreCase = False\<rparr>\<rparr>,
     \<lparr>sig_name = ''Next.js'',
      sig_patterns = [rx (lit ''__NEXT_DATA__''), rx (lit ''_next/''), rx (lit ''next/dist''),
        rx (lit ''next-route-announcer'')],
      sig_category = frontend_framework,
      versionPattern = Some \<lparr>source = seqs [Chr (CHR 0x22), lit ''next'', Chr (CHR 0x22), Chr (CHR '':''),
                                Chr (CHR 0x22), semverGroup, Chr (CHR 0x22)],
                              ignoreCase = False\<rparr>\<rparr>,
     \<lparr>sig_name = ''Nuxt'',
      sig_patterns = [rx (lit ''__NUXT__''), rxi (wordOf ''nuxt''), rx (lit ''_nuxt/''), rx (lit ''nuxt.js'')],
      sig_category = frontend_framework,
      versionPattern = None\<rparr>,
     \<lparr>sig_name = ''jQuery'',
      sig_patterns = [rxi (lit ''jquery''), rx (wordOf ''jQuery''), rx (lit ''jquery.min.js''),
        rx (seqs [lit ''jquery-'', Plus digitCls])],
      sig_category = library,
      versionPattern = Some \<lparr>source = seqs [lit ''jquery'', dotOrDash, semverGroup], ignoreCase = True\<rparr>\<rparr>,
     \<lparr>sig_name = ''Bootstrap'',
      sig_patterns = [rxi (lit ''bootstrap''), rx (lit ''bootstrap.min.js''), rx (lit ''bootstrap.min.css''),
        rx (seqs [classAttr, Group (Alt (lit ''container'') (Alt (lit ''row'') (lit ''col-'')))])],
      sig_category = css_framework,
      versionPattern = Some \<lparr>source = seqs [lit ''bootstrap'', dotOrDash, semverGroup], ignoreCase = True\<rparr>\<rparr>,
     \<lparr>sig_name = ''Tailwind CSS'',
      sig_patterns = [rxi (lit ''tailwind''), rx (lit ''tailwindcss''),
        rx (seqs [classAttr, Group (Alt (lit ''flex'') (Alt (lit ''grid'')
             (Alt (seqs [lit ''p-'', digitCls]) (Alt (seqs [lit ''m-'', digitCls])
             (Alt (seqs [lit ''text-'', Plus wordCls]) (seqs [lit ''bg-'', Plus wordCls]))))))])],
      sig_category = css_framework,
      versionPattern = None\<rparr>,
     \<lparr>sig_name = ''WordPress'',
      sig_patterns = [rx (lit ''/wp-content/''), rx (lit ''/wp-includes/''), rx (lit ''wp-json''),
        rxi (lit ''wordpress'')],
      sig_category = cms,
      versionPattern = Some \<lparr>source = seqs [lit ''ver='',
                                Group (seqs [Plus digitCls, Chr (CHR ''.''), Plus digitCls,
                                             Opt (Chr (CHR ''.'')), Star digitCls])],
                              ignoreCase = False\<rparr>\<rparr>,
     \<lparr>sig_name = ''Shopify'',
      sig_patterns = [rx (wordOf ''Shopify''), rx (lit ''cdn.shopify.com''), rx (lit ''shopify-section''),
        rx (lit ''myshopify.com'')],
      sig_category = ecommerce,
      versionPattern = None\<rparr>,
     \<lparr>sig_name = ''Wix'',
      sig_patterns = [rx (lit ''wix-style''), rx (lit ''wix-viewer''), rx (lit ''static.wixstatic.com''),
        rx (lit ''wix.com'')],
      sig_category = cms,
      versionPattern = None\<rparr>,
     \<lparr>sig_name = ''Svelte'',
      sig_patterns = [rxi (wordOf ''svelte''), rx (seqs [lit ''svelte-'', Plus wordCls]), rx (lit ''__svelte'')],
      sig_category = frontend_framework,
      versionPattern = None\<rparr>,
     \<lparr>sig_name = ''Gatsby'',
      sig_patterns = [rxi (lit ''gatsby''), rx (lit ''___gatsby''), rx (lit ''gatsby-image'')],
      sig_category = frontend_framework,
      versionPattern = None\<rparr>,
     \<lparr>sig_name = ''Remix'',
      sig_patterns = [rx (lit ''__remixContext''), rxi (lit ''remix'')],
      sig_category = frontend_framework,
      versionPattern = None\<rparr>]"

definition analyticsSignatures :: "AnalyticsSignature list" where
  "analyticsSignatures = [
     \<lparr>as_name = ''Google Analytics'', as_type = analytics_type,
      as_patterns = [rx (lit ''ga.js''), rx (seqs [WordBoundary, lit ''gtag('']), rx (lit ''analytics.js''),
        rx (seqs [WordBoundary, lit ''UA-'', Plus digitCls, Chr (CHR ''-''), Plus digitCls]),
        rx (lit ''google-analytics.com''), rx (lit ''googletagmanager.com/gtag'')]\<rparr>,
     \<lparr>as_name = ''Google Tag Manager'', as_type = tracking_type,
      as_patterns = [rx (lit ''gtm.js''),
        rx (seqs [WordBoundary, lit ''GTM-'',
                  Plus (Cls False [CRange (CHR ''A'') (CHR ''Z''), CRange (CHR ''0'') (CHR ''9'')])]),
        rx (lit ''googletagmanager.com/gtm'')]\<rparr>,
     \<lparr>as_name = ''Facebook Pixel'', as_type = marketing_type,
      as_patterns = [rx (seqs [WordBoundary, lit ''fbq('']), rx (lit ''facebook.net/en_US/fbevents''),
        rx (seqs [lit ''connect.facebook.net'', Star Dot, lit ''fbevents''])]\<rparr>,
     \<lparr>as_name = ''Hotjar'', as_type = analytics_type,
      as_patterns = [rx (lit ''hotjar.com''), rx (lit ''_hjSettings''), rx (lit ''hj.q'')]\<rparr>,
     \<lparr>as_name = ''Segment'', as_type = analytics_type,
      as_patterns = [rx (lit ''segment.com''), rx (lit ''cdn.segment.com''), rx (lit ''analytics.load('')]\<rparr>,
     \<lparr>as_name = ''Mixpanel'', as_type = analytics_type,
      as_patterns = [rxi (lit ''mixpanel''), rx (lit ''cdn.mxpnl.com'')]\<rparr>,
     \<lparr>as_name = ''Heap'', as_type = analytics_type,
      as_patterns = [rx (seqs [lit ''heap-'', Plus digitCls]), rx (lit ''heapanalytics.com'')]\<rparr>,
     \<lparr>as_name = ''Amplitude'', as_type = analytics_type,
      as_patterns = [rxi (lit ''amplitude''), rx (lit ''cdn.amplitude.com'')]\<rparr>,
     \<lparr>as_name = ''Intercom'', as_type = marketing_type,
      as_patterns = [rxi (lit ''intercom''), rx (lit ''widget.intercom.io''), rx (lit ''intercomSettings'')]\<rparr>,
     \<lparr>as_name = ''HubSpot'', as_type = marketing_type,
      as_patterns = [rxi (lit ''hubspot''), rx (lit ''hs-scripts.com''), rx (lit ''hbspt.forms'')]\<rparr>,
     \<lparr>as_name = ''Drift'', as_type = marketing_type,
      as_patterns = [rx (lit ''drift.com''), rx (lit ''js.driftt.com'')]\<rparr>,
     \<lparr>as_name = ''LinkedIn Insight'', as_type = marketing_type,
      as_patterns = [rx (lit ''linkedin.com/px''), rx (lit ''snap.licdn.com''),
        rx (lit ''_linkedin_data_partner_id'')]\<rparr>,
     \<lparr>as_name = ''Twitter Pixel'', as_type = marketing_type,
      as_patterns = [rx (lit ''static.ads-twitter.com''), rx (lit ''twq('')]\<rparr>,
     \<lparr>as_name = ''Pinterest Tag'', as_type = marketing_type,
      as_patterns = [rx (lit ''pintrk(''), rx (lit ''ct.pinterest.com'')]\<rparr>,
     \<lparr>as_name = ''TikTok Pixel'', as_type = marketing_type,
      as_patterns = [rx (lit ''analytics.tiktok.com''), rx (lit ''ttq.load'')]\<rparr>]"

section \<open>The pattern matcher\<close>

text \<open>\<open>matchesPattern\<close> and \<open>findEvidence\<close> are declared twice in the source, in the
  framework detector and in the analytics detector, with the same text.\<close>

definition matchesPattern :: "string \<Rightarrow> StringOrRegExp \<Rightarrow> bool" where
  "matchesPattern content p =
     (case p of Str s \<Rightarrow> includesStr content s | Rx re \<Rightarrow> test re content)"

definition extractVersion :: "string \<Rightarrow> RegExp option \<Rightarrow> string option" where
  "extractVersion content vp =
     (case vp of
        None \<Rightarrow> None
      | Some re \<Rightarrow> (case exec re content of None \<Rightarrow> None | Some m \<Rightarrow> capture1 m))"

text \<open>The quotient \<open>matchCount / totalPatterns\<close> is a double in the source. Both
  numbers are lengths of pattern lists, far below \<open>2^53\<close>, and 0.5 and 0.25 are
  doubles, so the rounded quotient compares with them as the exact one does. A
  division by 0 gives infinity, which is above both thresholds, or for 0 / 0 a
  value that compares false with everything.\<close>

definition ratioAtLeast :: "nat \<Rightarrow> nat \<Rightarrow> rat \<Rightarrow> bool" where
  "ratioAtLeast matchCount totalPatterns bound =
     (if totalPatterns = 0 then 0 < matchCount
      else bound \<le> of_nat matchCount / of_nat totalPatterns)"

definition calculateConfidence :: "nat \<Rightarrow> nat \<Rightarrow> ConfidenceLevel" where
  "calculateConfidence matchCount totalPatterns =
     (if ratioAtLeast matchCount totalPatterns (1 / 2) \<or> 3 \<le> matchCount then high
      else if ratioAtLeast matchCount totalPatterns (1 / 4) \<or> 2 \<le> matchCount then medium
      else low)"

fun findEvidence :: "string \<Rightarrow> StringOrRegExp list \<Rightarrow> string option" where
  "findEvidence content [] = None"
| "findEvidence content (Str p # ps) =
     (case indexOf content p of
        Some i \<Rightarrow>
          (let start = nat (max 0 (int i - 20));
               end' = min (length content) (i + length p + 20)
           in Some (''...'' @ slice content start end' @ ''...''))
      | None \<Rightarrow> findEvidence content ps)"
| "findEvidence content (Rx re # ps) =
     (case exec re content of
        Some m \<Rightarrow> Some (group0 m)
      | None \<Rightarrow> findEvidence content ps)"

section \<open>The framework detector\<close>

subsection \<open>Detection from headers\<close>

text \<open>The header object is given by its entries, in the order of
  \<^verbatim>\<open>Object.entries\<close>. The normalised object is a map; a later entry replaces an
  earlier one with the same lower-case key.\<close>

type_synonym headers = "(string \<times> string) list"

definition normalizeHeaders :: "headers \<Rightarrow> (string \<rightharpoonup> string)" where
  "normalizeHeaders hs = foldl (\<lambda>m (k, v). m(toLowerCase k \<mapsto> v)) Map.empty hs"

text \<open>The inner loop over the rules of one header, left at the first match.\<close>

fun scanRules :: "string \<Rightarrow> string \<Rightarrow> HeaderRule list \<Rightarrow> DetectedTechnology list
    \<Rightarrow> DetectedTechnology list" where
  "scanRules h headerValue [] detected = detected"
| "scanRules h headerValue (r # rs) detected =
     (if matchesPattern headerValue (pattern r)
      then detected @ [\<lparr>name = technology r, version = None, confidence = high,
                         category = hdr_category r,
                         evidence = Some (h @ '': '' @ headerValue)\<rparr>]
      else scanRules h headerValue rs detected)"

text \<open>The body of the outer loop. \<^verbatim>\<open>if (!headerValue) continue\<close> skips a header
  that is absent and a header whose value is the empty string.\<close>

definition headerStep :: "(string \<rightharpoonup> string) \<Rightarrow> HeaderSignature \<Rightarrow> DetectedTechnology list
    \<Rightarrow> DetectedTechnology list" where
  "headerStep normalizedHeaders sg detected =
     (case normalizedHeaders (toLowerCase (header sg)) of
        None \<Rightarrow> detected
      | Some headerValue \<Rightarrow>
          if headerValue = [] then detected
          else scanRules (header sg) headerValue (hdr_patterns sg) detected)"

fun headerLoop :: "(string \<rightharpoonup> string) \<Rightarrow> HeaderSignature list \<Rightarrow> DetectedTechnology list
    \<Rightarrow> DetectedTechnology list" where
  "headerLoop normalizedHeaders [] detected = detected"
| "headerLoop normalizedHeaders (sg # sgs) detected =
     headerLoop normalizedHeaders sgs (headerStep normalizedHeaders sg detected)"

definition detectFromHeaders :: "headers \<Rightarrow> DetectedTechnology list" where
  "detectFromHeaders hs = headerLoop (normalizeHeaders hs) headerSignatures []"

subsection \<open>Detection from HTML\<close>

text \<open>The inner loop counts the matching patterns and collects them in order.\<close>

fun countMatches :: "string \<Rightarrow> StringOrRegExp list \<Rightarrow> nat \<times> StringOrRegExp list
    \<Rightarrow> nat \<times> StringOrRegExp list" where
  "countMatches html [] acc = acc"
| "countMatches html (p # ps) (matchCount, matchedPatterns) =
     (if matchesPattern html p
      then countMatches html ps (matchCount + 1, matchedPatterns @ [p])
      else countMatches html ps (matchCount, matchedPatterns))"

definition htmlStep :: "string \<Rightarrow> SignaturePattern \<Rightarrow> DetectedTechnology list
    \<Rightarrow> DetectedTechnology list" where
  "htmlStep html sg detected =
     (case countMatches html (sig_patterns sg) (0, []) of
        (matchCount, matchedPatterns) \<Rightarrow>
          if 0 < matchCount
          then detected @ [\<lparr>name = sig_name sg,
                             version = extractVersion html (versionPattern sg),
                             confidence = calculateConfidence matchCount (length (sig_patterns sg)),
                             category = sig_category sg,
                             evidence = findEvidence html matchedPatterns\<rparr>]
          else detected)"

fun htmlLoop :: "string \<Rightarrow> SignaturePattern list \<Rightarrow> DetectedTechnology list
    \<Rightarrow> DetectedTechnology list" where
  "htmlLoop html [] detected = detected"
| "htmlLoop html (sg # sgs) detected = htmlLoop html sgs (htmlStep html sg detected)"

definition detectFromHtml :: "string \<Rightarrow> DetectedTechnology list" where
  "detectFromHtml html = htmlLoop html frameworkSignatures []"

subsection \<open>Deduplication\<close>

text \<open>\<^verbatim>\<open>confidenceOrder.indexOf(c)\<close>, with \<open>-1\<close> for a missing element.\<close>

definition confidenceOrder :: "ConfidenceLevel list" where
  "confidenceOrder = [high, medium, low]"

fun listIndexOf :: "'a list \<Rightarrow> 'a \<Rightarrow> int" where
  "listIndexOf [] x = -1"
| "listIndexOf (y # ys) x =
     (if y = x then 0 else (let i = listIndexOf ys x in if i < 0 then -1 else i + 1))"

text \<open>A version is tested for truth: an absent version and the empty string are
  false.\<close>

definition truthy :: "string option \<Rightarrow> bool" where
  "truthy v = (v \<noteq> None \<and> v \<noteq> Some [])"

text \<open>The map from names to technologies keeps its keys in the order of their
  first insertion, and setting a key that is present keeps its place: an
  association list with \<open>AList.update\<close>.\<close>

definition dedupStep :: "DetectedTechnology \<Rightarrow> (string \<times> DetectedTechnology) list
    \<Rightarrow> (string \<times> DetectedTechnology) list" where
  "dedupStep tech techMap =
     (case map_of techMap (name tech) of
        None \<Rightarrow> AList.update (name tech) tech techMap
      | Some existing \<Rightarrow>
          (let existingIndex = listIndexOf confidenceOrder (confidence existing);
               newIndex = listIndexOf confidenceOrder (confidence tech)
           in if newIndex < existingIndex
              then AList.update (name tech) tech techMap
              else if newIndex = existingIndex \<and> \<not> truthy (version existing) \<and> truthy (version tech)
              then AList.update (name tech) tech techMap
              else techMap))"

fun dedupLoop :: "DetectedTechnology list \<Rightarrow> (string \<times> DetectedTechnology) list
    \<Rightarrow> (string \<times> DetectedTechnology) list" where
  "dedupLoop [] techMap = techMap"
| "dedupLoop (tech # techs) techMap = dedupLoop techs (dedupStep tech techMap)"

definition deduplicateTechnologies :: "DetectedTechnology list \<Rightarrow> DetectedTechnology list" where
  "deduplicateTechnologies technologies = map snd (dedupLoop technologies [])"

subsection \<open>The detector\<close>

text \<open>The test \<^verbatim>\<open>!html || html.trim().length === 0\<close>.\<close>

definition emptyHtml :: "string \<Rightarrow> bool" where
  "emptyHtml html = (html = [] \<or> length (trim html) = 0)"

text \<open>The list handed to the deduplication: the HTML pass, unless the HTML is
  empty, then the header pass, if a header object with at least one key is
  given.\<close>

definition combinedDetections :: "string \<Rightarrow> headers option \<Rightarrow> DetectedTechnology list" where
  "combinedDetections html hdrs =
     (let detected = (if emptyHtml html then [] else [] @ detectFromHtml html)
      in case hdrs of
           None \<Rightarrow> detected
         | Some hs \<Rightarrow> if 0 < length hs then detected @ detectFromHeaders hs else detected)"

text \<open>The comparison function of the sort is the difference of the two indices in
  \<open>confidenceOrder\<close>, and the sort of the language is stable: it is the stable
  sort by that index.\<close>

definition detectFrameworks :: "string \<Rightarrow> headers option \<Rightarrow> DetectedTechnology ResponseEnvelope" where
  "detectFrameworks html hdrs =
     createResponse
       (sort_key (\<lambda>t. listIndexOf confidenceOrder (confidence t))
          (deduplicateTechnologies (combinedDetections html hdrs)))
       (if emptyHtml html then [''Empty HTML content provided''] else [])"

section \<open>The analytics detector\<close>

text \<open>The loop state is the list of detections and the set of names seen. The
  inner loop over the patterns of one signature is left at the first pattern that
  matches the HTML or its lower-case copy.\<close>

fun scanPatterns :: "string \<Rightarrow> string \<Rightarrow> AnalyticsSignature \<Rightarrow> StringOrRegExp list
    \<Rightarrow> DetectedAnalytics list \<times> string set \<Rightarrow> DetectedAnalytics list \<times> string set" where
  "scanPatterns html normalizedHtml sg [] st = st"
| "scanPatterns html normalizedHtml sg (p # ps) (detected, seenNames) =
     (if matchesPattern html p \<or> matchesPattern normalizedHtml p
      then (detected @ [\<lparr>an_name = as_name sg, an_type = as_type sg,
                          an_evidence = findEvidence html [p]\<rparr>],
            insert (as_name sg) seenNames)
      else scanPatterns html normalizedHtml sg ps (detected, seenNames))"

definition analyticsStep :: "string \<Rightarrow> string \<Rightarrow> AnalyticsSignature
    \<Rightarrow> DetectedAnalytics list \<times> string set \<Rightarrow> DetectedAnalytics list \<times> string set" where
  "analyticsStep html normalizedHtml sg st =
     (if as_name sg \<in> snd st then st
      else scanPatterns html normalizedHtml sg (as_patterns sg) st)"

fun analyticsLoop :: "string \<Rightarrow> string \<Rightarrow> AnalyticsSignature list
    \<Rightarrow> DetectedAnalytics list \<times> string set \<Rightarrow> DetectedAnalytics list \<times> string set" where
  "analyticsLoop html normalizedHtml [] st = st"
| "analyticsLoop html normalizedHtml (sg # sgs) st =
     analyticsLoop html normalizedHtml sgs (analyticsStep html normalizedHtml sg st)"

definition detectAnalytics :: "string \<Rightarrow> DetectedAnalytics ResponseEnvelope" where
  "detectAnalytics html =
     (if emptyHtml html then createResponse [] [''Empty HTML content provided'']
      else createResponse
             (fst (analyticsLoop html (toLowerCase html) analyticsSignatures ([], {})))
             [])"

section \<open>Notions of the statements and of their proofs\<close>

text \<open>The confidence tiers in their order: low below medium below high.\<close>

fun tier :: "ConfidenceLevel \<Rightarrow> nat" where
  "tier low = 0"
| "tier medium = 1"
| "tier high = 2"

text \<open>The confidence rule in the words of the specification, with the quotient as a real number.\<close>

definition spec_confidence :: "nat \<Rightarrow> nat \<Rightarrow> ConfidenceLevel" where
  "spec_confidence matchCount totalMatchers =
     (let ratio = real matchCount / real totalMatchers
      in if ratio \<ge> 0.5 \<or> matchCount \<ge> 3 then high
         else if ratio \<ge> 0.25 \<or> matchCount \<ge> 2 then medium
         else low)"

text \<open>The number of patterns of a signature that match the HTML.\<close>

definition matchCountOf :: "string \<Rightarrow> SignaturePattern \<Rightarrow> nat" where
  "matchCountOf html sg = length (filter (matchesPattern html) (sig_patterns sg))"

text \<open>The technology that the HTML pass emits for a signature with at least one matching pattern.\<close>

definition emitted :: "string \<Rightarrow> SignaturePattern \<Rightarrow> DetectedTechnology" where
  "emitted html sg =
     \<lparr>name = sig_name sg,
      version = extractVersion html (versionPattern sg),
      confidence = spec_confidence (matchCountOf html sg) (length (sig_patterns sg)),
      category = sig_category sg,
      evidence = findEvidence html (filter (matchesPattern html) (sig_patterns sg))\<rparr>"

text \<open>The sort key of a technology: the index of its confidence in \<open>confidenceOrder\<close>.\<close>

definition rank :: "DetectedTechnology \<Rightarrow> int" where
  "rank t = listIndexOf confidenceOrder (confidence t)"

text \<open>The map of the deduplication is well formed: its keys are distinct and every entry is stored under its own name.\<close>

definition wfMap :: "(string \<times> DetectedTechnology) list \<Rightarrow> bool" where
  "wfMap m = (distinct (map fst m) \<and> list_all (\<lambda>(k, v). name v = k) m)"

text \<open>An entry dominates another when its confidence is at least as good and, at equal confidence, it has a version whenever the other has one.\<close>

definition dominates :: "DetectedTechnology \<Rightarrow> DetectedTechnology \<Rightarrow> bool" where
  "dominates e t =
     (tier (confidence t) \<le> tier (confidence e)
      \<and> (confidence e = confidence t \<and> truthy (version t) \<longrightarrow> truthy (version e)))"

text \<open>A matcher state is reached from another by moving the position forward over the text.\<close>

definition advances :: "mstate \<Rightarrow> mstate \<Rightarrow> bool" where
  "advances s s' = (\<exists>u. rest s = u @ rest s' \<and> before s' = rev u @ before s)"

text \<open>Expressions of which every match consumes at least one character, and expressions whose capturing groups all wrap such an expression.\<close>

primrec consuming :: "regex \<Rightarrow> bool" where
  "consuming Empty = False"
| "consuming (Chr a) = True"
| "consuming Dot = True"
| "consuming (Cls n items) = True"
| "consuming WordBoundary = False"
| "consuming (Seq r1 r2) = (consuming r1 \<or> consuming r2)"
| "consuming (Alt r1 r2) = (consuming r1 \<and> consuming r2)"
| "consuming (Star r) = False"
| "consuming (Plus r) = consuming r"
| "consuming (Opt r) = False"
| "consuming (Group r) = consuming r"

primrec groupsConsume :: "regex \<Rightarrow> bool" where
  "groupsConsume Empty = True"
| "groupsConsume (Chr a) = True"
| "groupsConsume Dot = True"
| "groupsConsume (Cls n items) = True"
| "groupsConsume WordBoundary = True"
| "groupsConsume (Seq r1 r2) = (groupsConsume r1 \<and> groupsConsume r2)"
| "groupsConsume (Alt r1 r2) = (groupsConsume r1 \<and> groupsConsume r2)"
| "groupsConsume (Star r) = groupsConsume r"
| "groupsConsume (Plus r) = groupsConsume r"
| "groupsConsume (Opt r) = groupsConsume r"
| "groupsConsume (Group r) = (consuming r \<and> groupsConsume r)"

text \<open>The capture of group 1 is absent or non-empty.\<close>

definition captureOk :: "mstate \<Rightarrow> bool" where
  "captureOk s = (group1 s \<noteq> Some [])"

text \<open>The version pattern of a signature, if any, captures only non-empty text.\<close>

definition versionPatternOk :: "SignaturePattern \<Rightarrow> bool" where
  "versionPatternOk sg =
     (case versionPattern sg of None \<Rightarrow> True | Some re \<Rightarrow> groupsConsume (source re))"

text \<open>What the header pass emits for one header signature: nothing, or one technology for the first rule that matches the value of the header.\<close>

definition headerEmit :: "(string \<rightharpoonup> string) \<Rightarrow> HeaderSignature \<Rightarrow> DetectedTechnology list" where
  "headerEmit normalizedHeaders sg =
     (case normalizedHeaders (toLowerCase (header sg)) of
        None \<Rightarrow> []
      | Some headerValue \<Rightarrow>
          (case find (\<lambda>r. matchesPattern headerValue (pattern r)) (hdr_patterns sg) of
             None \<Rightarrow> []
           | Some r \<Rightarrow> [\<lparr>name = technology r, version = None, confidence = high,
                          category = hdr_category r,
                          evidence = Some (header sg @ '': '' @ headerValue)\<rparr>]))"

text \<open>No rule of a header signature matches the empty string.\<close>

definition rulesRejectEmpty :: "HeaderSignature \<Rightarrow> bool" where
  "rulesRejectEmpty sg = list_all (\<lambda>r. \<not> matchesPattern [] (pattern r)) (hdr_patterns sg)"

text \<open>The literal occurs in the text at index \<open>i\<close> and at no smaller index.\<close>

definition firstOccurrence :: "string \<Rightarrow> string \<Rightarrow> nat \<Rightarrow> bool" where
  "firstOccurrence content p i =
     (i \<le> length content \<and> prefix p (drop i content) \<and> (\<forall>j<i. \<not> prefix p (drop j content)))"

text \<open>The first pattern of an analytics signature that matches the HTML or its lower-case copy.\<close>

definition analyticsHit :: "string \<Rightarrow> AnalyticsSignature \<Rightarrow> StringOrRegExp option" where
  "analyticsHit html sg =
     find (\<lambda>p. matchesPattern html p \<or> matchesPattern (toLowerCase html) p) (as_patterns sg)"

text \<open>The entry emitted for an analytics signature and its first matching pattern.\<close>

definition analyticsEntry :: "string \<Rightarrow> AnalyticsSignature \<Rightarrow> StringOrRegExp \<Rightarrow> DetectedAnalytics" where
  "analyticsEntry html sg p =
     \<lparr>an_name = as_name sg, an_type = as_type sg, an_evidence = findEvidence html [p]\<rparr>"

text \<open>What holds of the state of the analytics loop after it has run over the signatures \<open>sgs\<close> from a state whose list of detections is \<open>d\<close>.\<close>

definition loopInv :: "string \<Rightarrow> AnalyticsSignature list \<Rightarrow> DetectedAnalytics list
    \<Rightarrow> DetectedAnalytics list \<times> string set \<Rightarrow> bool" where
  "loopInv html sgs d st' =
     (snd st' = an_name ` set (fst st') \<and> distinct (map an_name (fst st'))
      \<and> (\<exists>new. fst st' = d @ new
            \<and> subseq (map an_name new) (map as_name sgs)
            \<and> (\<forall>x\<in>set new. \<exists>sg\<in>set sgs. \<exists>p. analyticsHit html sg = Some p
                                 \<and> x = analyticsEntry html sg p))
      \<and> (\<forall>sg\<in>set sgs. analyticsHit html sg \<noteq> None \<longrightarrow> as_name sg \<in> snd st'))"

section \<open>Case conversion\<close>

text \<open>Setting bit 5 of an upper-case letter adds 32 to its code, and clearing
  bit 5 of a lower-case letter subtracts 32 from it.\<close>

lemma toLowerChar_code:
  "isUpperChar c \<Longrightarrow> (of_char (toLowerChar c) :: nat) = of_char c + 32"
proof (cases c)
  case (Char b0 b1 b2 b3 b4 b5 b6 b7)
  assume "isUpperChar c"
  then show ?thesis
    unfolding Char toLowerChar_def isUpperChar_def inRange_def less_eq_char_def
    by (cases b0; cases b1; cases b2; cases b3; cases b4; cases b5; cases b6; cases b7)
       (simp_all split: if_splits)
qed

lemma canonicalize_code:
  "isLowerChar c \<Longrightarrow> (of_char (canonicalize c) :: nat) + 32 = of_char c"
proof (cases c)
  case (Char b0 b1 b2 b3 b4 b5 b6 b7)
  assume "isLowerChar c"
  then show ?thesis
    unfolding Char canonicalize_def isLowerChar_def inRange_def less_eq_char_def
    by (cases b0; cases b1; cases b2; cases b3; cases b4; cases b5; cases b6; cases b7)
       (simp_all split: if_splits)
qed

section \<open>The confidence rule\<close>

lemma ratioAtLeast_half: "0 < t \<Longrightarrow> ratioAtLeast m t (1/2) = (t \<le> 2 * m)"
proof -
  assume t: "0 < t"
  have "rat_of_nat t \<le> rat_of_nat (2 * m) \<longleftrightarrow> t \<le> 2 * m" by (rule of_nat_le_iff)
  then show ?thesis using t unfolding ratioAtLeast_def by (simp add: field_simps)
qed

lemma ratioAtLeast_quarter: "0 < t \<Longrightarrow> ratioAtLeast m t (1/4) = (t \<le> 4 * m)"
proof -
  assume t: "0 < t"
  have "rat_of_nat t \<le> rat_of_nat (4 * m) \<longleftrightarrow> t \<le> 4 * m" by (rule of_nat_le_iff)
  then show ?thesis using t unfolding ratioAtLeast_def by (simp add: field_simps)
qed

lemma real_ratio_half: "0 < t \<Longrightarrow> (real m / real t \<ge> 0.5) = (t \<le> 2 * m)"
proof -
  assume t: "0 < t"
  have "real t \<le> real (2 * m) \<longleftrightarrow> t \<le> 2 * m" by (rule of_nat_le_iff)
  then show ?thesis using t by (simp add: field_simps)
qed

lemma real_ratio_quarter: "0 < t \<Longrightarrow> (real m / real t \<ge> 0.25) = (t \<le> 4 * m)"
proof -
  assume t: "0 < t"
  have "real t \<le> real (4 * m) \<longleftrightarrow> t \<le> 4 * m" by (rule of_nat_le_iff)
  then show ?thesis using t by (simp add: field_simps)
qed

text \<open>
  Claim C9. For a signature with a fixed number \<open>t\<close> of patterns, the confidence tier is
  monotone in the match count: for match counts \<open>m1 \<le> m2\<close> between 1 and \<open>t\<close>, the tier
  computed for \<open>m1\<close> is not above the tier computed for \<open>m2\<close>.
\<close>

theorem confidence_monotone:
  "1 \<le> m1 \<Longrightarrow> m1 \<le> m2 \<Longrightarrow> m2 \<le> t \<Longrightarrow>
   tier (calculateConfidence m1 t) \<le> tier (calculateConfidence m2 t)"
  unfolding calculateConfidence_def
  by (simp add: ratioAtLeast_half ratioAtLeast_quarter)

text \<open>
  Witness for C9: with six patterns, one match gives low and three matches give high.
\<close>

theorem confidence_monotone_witness:
  "calculateConfidence 1 6 = low \<and> calculateConfidence 3 6 = high
   \<and> tier (calculateConfidence 1 6) \<le> tier (calculateConfidence 3 6)"
proof -
  have a: "(1::nat) \<le> 1" and b: "(1::nat) \<le> 3" and c: "(3::nat) \<le> 6" by simp_all
  have "calculateConfidence 1 6 = low" "calculateConfidence 3 6 = high" by code_simp+
  then show ?thesis using confidence_monotone[OF a b c] by simp
qed

lemma calculateConfidence_spec:
  "0 < t \<Longrightarrow> calculateConfidence m t = spec_confidence m t"
  unfolding calculateConfidence_def spec_confidence_def Let_def
  by (simp only: ratioAtLeast_half ratioAtLeast_quarter real_ratio_half real_ratio_quarter)

lemma countMatches_eq:
  "countMatches html ps (c, mp) =
     (c + length (filter (matchesPattern html) ps), mp @ filter (matchesPattern html) ps)"
  by (induction ps arbitrary: c mp) auto

section \<open>The HTML pass\<close>

lemma matchCountOf_le: "matchCountOf html sg \<le> length (sig_patterns sg)"
  unfolding matchCountOf_def by simp

lemma htmlStep_eq:
  "htmlStep html sg detected =
     (if 0 < matchCountOf html sg
      then detected @ [\<lparr>name = sig_name sg,
                         version = extractVersion html (versionPattern sg),
                         confidence = spec_confidence (matchCountOf html sg) (length (sig_patterns sg)),
                         category = sig_category sg,
                         evidence = findEvidence html (filter (matchesPattern html) (sig_patterns sg))\<rparr>]
      else detected)"
proof (cases "0 < matchCountOf html sg")
  case True
  then have "0 < length (sig_patterns sg)"
    using matchCountOf_le[of html sg] by linarith
  then show ?thesis
    using True unfolding htmlStep_def
    by (simp add: countMatches_eq matchCountOf_def calculateConfidence_spec)
next
  case False
  then show ?thesis
    unfolding htmlStep_def by (simp add: countMatches_eq matchCountOf_def)
qed

lemma htmlLoop_eq:
  "htmlLoop html sgs detected =
     detected @ map (emitted html) (filter (\<lambda>sg. 0 < matchCountOf html sg) sgs)"
  by (induction sgs arbitrary: detected) (simp_all add: htmlStep_eq emitted_def)

text \<open>
  Claim C1. The HTML pass emits one technology for every framework signature of the
  catalog with at least one matching pattern, in catalog order, and its confidence
  follows the rule of the specification for the number of matching patterns and the
  number of patterns of the signature: high if the quotient is at least 0.5 or at
  least three patterns match, else medium if the quotient is at least 0.25 or at least
  two patterns match, else low.
\<close>

theorem html_confidence_rule:
  "map (\<lambda>t. (name t, confidence t)) (detectFromHtml html) =
     map (\<lambda>sg. (sig_name sg, spec_confidence (matchCountOf html sg) (length (sig_patterns sg))))
       (filter (\<lambda>sg. 0 < matchCountOf html sg) frameworkSignatures)"
  unfolding detectFromHtml_def htmlLoop_eq by (simp add: emitted_def o_def)

section \<open>Empty HTML\<close>

lemma dropWhile_all_iff:
  "(\<forall>x\<in>set (dropWhile P xs). P x) \<longleftrightarrow> (\<forall>x\<in>set xs. P x)"
proof (cases "dropWhile P xs")
  case Nil
  then show ?thesis by (auto simp: dropWhile_eq_Nil_conv dest: set_dropWhileD)
next
  case (Cons a as)
  then have "\<not> P a" by (metis hd_dropWhile list.sel(1) list.distinct(1))
  moreover have "a \<in> set (dropWhile P xs)" using Cons by simp
  moreover have "a \<in> set xs" using Cons by (metis list.set_intros(1) set_dropWhileD)
  ultimately show ?thesis by blast
qed

lemma trim_Nil_iff: "trim s = [] \<longleftrightarrow> (\<forall>c\<in>set s. isWhiteSpace c)"
  unfolding trim_def by (simp add: dropWhile_eq_Nil_conv dropWhile_all_iff)

lemma emptyHtml_iff: "emptyHtml html \<longleftrightarrow> (\<forall>c\<in>set html. isWhiteSpace c)"
  unfolding emptyHtml_def by (auto simp: trim_Nil_iff)

lemma headerLoop_empty: "headerLoop Map.empty sgs detected = detected"
  by (induction sgs arbitrary: detected) (simp_all add: headerStep_def)

lemma detectFromHeaders_Nil: "detectFromHeaders [] = []"
  unfolding detectFromHeaders_def normalizeHeaders_def by (simp add: headerLoop_empty)

text \<open>
  Claim C5. For an HTML text that is empty or consists of white space only, both
  detectors return exactly the warning \<open>Empty HTML content provided\<close>; the analytics
  detector returns no detection, and the framework detector returns no detection from
  HTML: its result is the sorted, deduplicated result of the header pass alone, which
  still runs on the headers supplied.
\<close>

theorem empty_html_warning:
  assumes "\<forall>c\<in>set html. isWhiteSpace c"
  shows "warnings (detectFrameworks html hdrs) = [''Empty HTML content provided'']
       \<and> data (detectFrameworks html hdrs) =
           sort_key (\<lambda>t. listIndexOf confidenceOrder (confidence t))
             (deduplicateTechnologies (case hdrs of None \<Rightarrow> [] | Some hs \<Rightarrow> detectFromHeaders hs))
       \<and> warnings (detectAnalytics html) = [''Empty HTML content provided'']
       \<and> data (detectAnalytics html) = []"
proof -
  have e: "emptyHtml html" using assms by (simp add: emptyHtml_iff)
  have c: "combinedDetections html hdrs = (case hdrs of None \<Rightarrow> [] | Some hs \<Rightarrow> detectFromHeaders hs)"
    using e unfolding combinedDetections_def
    by (cases hdrs) (auto simp: detectFromHeaders_Nil)
  show ?thesis
    using e c unfolding detectFrameworks_def detectAnalytics_def createResponse_def by simp
qed

text \<open>
  Witness for C5: a space and a line feed as HTML, with a \<open>Server\<close> header.
\<close>

theorem empty_html_warning_witness:
  "list_all isWhiteSpace [CHR '' '', CHR 0x0A]
   \<and> warnings (detectFrameworks [CHR '' '', CHR 0x0A] (Some [(''Server'', ''nginx/1.21.0'')]))
       = [''Empty HTML content provided'']
   \<and> data (detectFrameworks [CHR '' '', CHR 0x0A] (Some [(''Server'', ''nginx/1.21.0'')]))
       = [\<lparr>name = ''nginx'', version = None, confidence = high, category = server,
            evidence = Some ''server: nginx/1.21.0''\<rparr>]
   \<and> warnings (detectAnalytics [CHR '' '', CHR 0x0A]) = [''Empty HTML content provided'']
   \<and> data (detectAnalytics [CHR '' '', CHR 0x0A]) = []"
proof -
  have w: "list_all isWhiteSpace [CHR '' '', CHR 0x0A]" by code_simp
  then have h: "\<forall>c\<in>set [CHR '' '', CHR 0x0A]. isWhiteSpace c" by (simp only: list_all_iff)
  have v: "sort_key (\<lambda>t. listIndexOf confidenceOrder (confidence t))
             (deduplicateTechnologies (detectFromHeaders [(''Server'', ''nginx/1.21.0'')]))
           = [\<lparr>name = ''nginx'', version = None, confidence = high, category = server,
                evidence = Some ''server: nginx/1.21.0''\<rparr>]"
    by code_simp
  show ?thesis
    using empty_html_warning[OF h, of "Some [(''Server'', ''nginx/1.21.0'')]"] w v by simp
qed

section \<open>Deduplication\<close>

lemma rank_cases:
  "rank t = (case confidence t of high \<Rightarrow> 0 | medium \<Rightarrow> 1 | low \<Rightarrow> 2)"
  unfolding rank_def confidenceOrder_def by (cases "confidence t") simp_all

lemma rank_less_iff: "rank a < rank b \<longleftrightarrow> tier (confidence b) < tier (confidence a)"
  unfolding rank_cases by (cases "confidence a"; cases "confidence b") simp_all

lemma rank_eq_iff: "rank a = rank b \<longleftrightarrow> confidence a = confidence b"
  unfolding rank_cases by (cases "confidence a"; cases "confidence b") simp_all

lemma dominates_refl: "dominates t t"
  unfolding dominates_def by simp

lemma dominates_trans: "dominates a b \<Longrightarrow> dominates b c \<Longrightarrow> dominates a c"
  unfolding dominates_def
  by (cases "confidence a"; cases "confidence b"; cases "confidence c") (auto split: if_splits)

lemma update_absent: "k \<notin> fst ` set m \<Longrightarrow> AList.update k v m = m @ [(k, v)]"
  by (induction m) auto

lemma list_all_update:
  "list_all P m \<Longrightarrow> P (k, v) \<Longrightarrow> list_all P (AList.update k v m)"
  by (induction m) auto

lemma wfMap_update: "wfMap m \<Longrightarrow> name v = k \<Longrightarrow> wfMap (AList.update k v m)"
  unfolding wfMap_def by (simp add: distinct_update list_all_update)

lemma wfMap_lookup: "wfMap m \<Longrightarrow> map_of m k = Some v \<Longrightarrow> name v = k"
  unfolding wfMap_def by (auto simp: list_all_iff dest: map_of_SomeD)

text \<open>One step of the loop: the entry stored under the name of \<open>tech\<close> afterwards
  is \<open>tech\<close> or the entry stored before, and it dominates both.\<close>

lemma dedupStep_other:
  "k \<noteq> name tech \<Longrightarrow> map_of (dedupStep tech m) k = map_of m k"
  unfolding dedupStep_def
  by (auto simp: update_conv' Let_def split: option.splits)

lemma dedupStep_same:
  "\<exists>e. map_of (dedupStep tech m) (name tech) = Some e
       \<and> (e = tech \<or> map_of m (name tech) = Some e)
       \<and> dominates e tech
       \<and> (case map_of m (name tech) of None \<Rightarrow> True | Some e0 \<Rightarrow> dominates e e0)"
proof (cases "map_of m (name tech)")
  case None
  then show ?thesis
    unfolding dedupStep_def by (simp add: update_conv' dominates_refl)
next
  case (Some e0)
  show ?thesis
    using Some unfolding dedupStep_def Let_def
    by (auto simp: update_conv' dominates_refl dominates_def rank_less_iff[unfolded rank_def]
          rank_eq_iff[unfolded rank_def] not_less)
qed

lemma wfMap_dedupStep: "wfMap m \<Longrightarrow> wfMap (dedupStep tech m)"
  unfolding dedupStep_def by (auto simp: wfMap_update Let_def split: option.splits)

lemma wfMap_dedupLoop: "wfMap m \<Longrightarrow> wfMap (dedupLoop techs m)"
  by (induction techs arbitrary: m) (simp_all add: wfMap_dedupStep)

lemma dedupLoop_lookup:
  assumes "wfMap m"
  shows "case map_of (dedupLoop techs m) k of
           None \<Rightarrow> map_of m k = None \<and> k \<notin> name ` set techs
         | Some e \<Rightarrow> (e \<in> set techs \<or> map_of m k = Some e)
                     \<and> (\<forall>t\<in>set techs. name t = k \<longrightarrow> dominates e t)
                     \<and> (case map_of m k of None \<Rightarrow> True | Some e0 \<Rightarrow> dominates e e0)"
  using assms
proof (induction techs arbitrary: m)
  case Nil
  then show ?case by (auto simp: dominates_refl split: option.splits)
next
  case (Cons tech techs)
  let ?m1 = "dedupStep tech m"
  have wf1: "wfMap ?m1" using Cons.prems by (rule wfMap_dedupStep)
  note IH = Cons.IH[OF wf1]
  show ?case
  proof (cases "k = name tech")
    case False
    then have same: "map_of ?m1 k = map_of m k" by (simp add: dedupStep_other)
    show ?thesis
      using IH False unfolding same
      by (auto split: option.splits)
  next
    case True
    obtain e1 where e1: "map_of ?m1 k = Some e1"
      and src: "e1 = tech \<or> map_of m k = Some e1"
      and d1: "dominates e1 tech"
      and d0: "case map_of m k of None \<Rightarrow> True | Some e0 \<Rightarrow> dominates e1 e0"
      using dedupStep_same[of tech m] True by auto
    from IH e1 obtain e where e: "map_of (dedupLoop techs ?m1) k = Some e"
      and esrc: "e \<in> set techs \<or> e = e1"
      and eall: "\<forall>t\<in>set techs. name t = k \<longrightarrow> dominates e t"
      and ed: "dominates e e1"
      by (auto split: option.splits)
    have "dominates e tech" using ed d1 by (rule dominates_trans)
    moreover have "case map_of m k of None \<Rightarrow> True | Some e0 \<Rightarrow> dominates e e0"
      using d0 ed by (auto split: option.splits intro: dominates_trans)
    moreover have "e \<in> set (tech # techs) \<or> map_of m k = Some e"
      using esrc src by auto
    ultimately show ?thesis
      using e eall True by simp
  qed
qed

lemma dedupLoop_keys:
  "fst ` set (dedupLoop techs m) = fst ` set m \<union> name ` set techs"
proof (induction techs arbitrary: m)
  case Nil
  then show ?case by simp
next
  case (Cons tech techs)
  have "fst ` set (dedupStep tech m) = insert (name tech) (fst ` set m)"
    unfolding dedupStep_def
    by (auto simp: dom_update Let_def split: option.splits dest: map_of_SomeD
             intro: rev_image_eqI)
  then show ?case using Cons.IH[of "dedupStep tech m"] by auto
qed

lemma dedup_names: "map name (map snd m) = map fst m" if "wfMap m"
  using that unfolding wfMap_def by (induction m) auto

lemma deduplicate_distinct: "distinct (map name (deduplicateTechnologies techs))"
proof -
  have wf: "wfMap (dedupLoop techs [])"
    by (rule wfMap_dedupLoop) (simp add: wfMap_def)
  then show ?thesis
    unfolding deduplicateTechnologies_def
    by (simp only: dedup_names[OF wf]) (simp add: wfMap_def)
qed

lemma deduplicate_best:
  assumes "t \<in> set techs"
  shows "\<exists>e\<in>set (deduplicateTechnologies techs).
           name e = name t \<and> e \<in> set techs \<and> dominates e t"
proof -
  let ?m = "dedupLoop techs []"
  have wf: "wfMap ?m" by (rule wfMap_dedupLoop) (simp add: wfMap_def)
  have "name t \<in> fst ` set ?m" using assms by (simp add: dedupLoop_keys)
  then obtain e where e: "map_of ?m (name t) = Some e"
    by (metis domD dom_map_of_conv_image_fst)
  have "wfMap []" by (simp add: wfMap_def)
  from dedupLoop_lookup[OF this, where techs = techs and k = "name t"] e
  have "e \<in> set techs" and "\<forall>u\<in>set techs. name u = name t \<longrightarrow> dominates e u"
    by auto
  then have "dominates e t" using assms by auto
  moreover have "name e = name t" using wf e by (rule wfMap_lookup)
  moreover have "e \<in> set (deduplicateTechnologies techs)"
    unfolding deduplicateTechnologies_def using e by (force dest: map_of_SomeD)
  ultimately show ?thesis using \<open>e \<in> set techs\<close> by blast
qed

lemma deduplicate_subset: "set (deduplicateTechnologies techs) \<subseteq> set techs"
proof
  fix e assume "e \<in> set (deduplicateTechnologies techs)"
  then obtain k where ke: "(k, e) \<in> set (dedupLoop techs [])"
    unfolding deduplicateTechnologies_def by auto
  have wf: "wfMap (dedupLoop techs [])" by (rule wfMap_dedupLoop) (simp add: wfMap_def)
  then have "map_of (dedupLoop techs []) k = Some e"
    using ke unfolding wfMap_def by simp
  moreover have "wfMap []" by (simp add: wfMap_def)
  ultimately show "e \<in> set techs"
    using dedupLoop_lookup[where m = "[]" and techs = techs and k = k] by auto
qed

lemma dedupLoop_distinct:
  "distinct (map fst m @ map name techs) \<Longrightarrow>
   dedupLoop techs m = m @ map (\<lambda>t. (name t, t)) techs"
proof (induction techs arbitrary: m)
  case Nil
  then show ?case by simp
next
  case (Cons tech techs)
  have notin: "name tech \<notin> fst ` set m" using Cons.prems by auto
  then have "map_of m (name tech) = None" by (simp add: map_of_eq_None_iff)
  then have step: "dedupStep tech m = m @ [(name tech, tech)]"
    unfolding dedupStep_def using notin by (simp add: update_absent)
  have "distinct (map fst (m @ [(name tech, tech)]) @ map name techs)"
    using Cons.prems by auto
  from Cons.IH[OF this] show ?case by (simp add: step)
qed

lemma deduplicate_idem_distinct:
  "distinct (map name techs) \<Longrightarrow> deduplicateTechnologies techs = techs"
  unfolding deduplicateTechnologies_def
  by (simp add: dedupLoop_distinct o_def)

section \<open>The order of the result\<close>

lemma sorted_three_way:
  fixes f :: "'a \<Rightarrow> int"
  assumes "sorted (map f ys)" and "\<forall>y\<in>set ys. f y = 0 \<or> f y = 1 \<or> f y = 2"
  shows "ys = filter (\<lambda>y. f y = 0) ys @ filter (\<lambda>y. f y = 1) ys @ filter (\<lambda>y. f y = 2) ys"
  using assms
proof (induction ys)
  case Nil
  then show ?case by simp
next
  case (Cons y ys)
  then have IH: "ys = filter (\<lambda>y. f y = 0) ys @ filter (\<lambda>y. f y = 1) ys @ filter (\<lambda>y. f y = 2) ys"
    by simp
  have le: "\<forall>z\<in>set ys. f y \<le> f z" using Cons.prems(1) by auto
  consider "f y = 0" | "f y = 1" | "f y = 2" using Cons.prems(2) by auto
  then show ?case
  proof cases
    case 1
    then show ?thesis using IH by simp
  next
    case 2
    then have "filter (\<lambda>y. f y = 0) ys = []" using le by (auto simp: filter_empty_conv)
    then show ?thesis using 2 IH by simp
  next
    case 3
    then have "filter (\<lambda>y. f y = 0) ys = []" "filter (\<lambda>y. f y = 1) ys = []"
      using le by (auto simp: filter_empty_conv)
    then show ?thesis using 3 IH by simp
  qed
qed

lemma rank_range: "rank t = 0 \<or> rank t = 1 \<or> rank t = 2"
  unfolding rank_cases by (cases "confidence t") simp_all

lemma rank_high: "(rank t = 0) = (confidence t = high)"
  and rank_medium: "(rank t = 1) = (confidence t = medium)"
  and rank_low: "(rank t = 2) = (confidence t = low)"
  unfolding rank_cases by (cases "confidence t"; simp)+

lemma sort_by_rank:
  "sort_key rank xs =
     filter (\<lambda>t. confidence t = high) xs @ filter (\<lambda>t. confidence t = medium) xs
     @ filter (\<lambda>t. confidence t = low) xs"
proof -
  let ?ys = "sort_key rank xs"
  have "?ys = filter (\<lambda>y. rank y = 0) ?ys @ filter (\<lambda>y. rank y = 1) ?ys @ filter (\<lambda>y. rank y = 2) ?ys"
    by (rule sorted_three_way) (simp_all add: rank_range)
  also have "\<dots> = filter (\<lambda>y. rank y = 0) xs @ filter (\<lambda>y. rank y = 1) xs @ filter (\<lambda>y. rank y = 2) xs"
    by (simp only: sort_key_stable)
  finally show ?thesis by (simp only: rank_high rank_medium rank_low)
qed

lemma detectFrameworks_data:
  "data (detectFrameworks html hdrs) =
     sort_key rank (deduplicateTechnologies (combinedDetections html hdrs))"
  unfolding detectFrameworks_def createResponse_def rank_def by simp

text \<open>
  Claim C8. The list returned by the framework detector is the deduplicated list
  with its entries of confidence high first, then those of confidence medium, then
  those of confidence low, each group in the order it has in the deduplicated list:
  the sort is by confidence and stable.
\<close>

theorem sorted_by_confidence:
  "data (detectFrameworks html hdrs) =
     filter (\<lambda>t. confidence t = high) (deduplicateTechnologies (combinedDetections html hdrs))
     @ filter (\<lambda>t. confidence t = medium) (deduplicateTechnologies (combinedDetections html hdrs))
     @ filter (\<lambda>t. confidence t = low) (deduplicateTechnologies (combinedDetections html hdrs))"
  unfolding detectFrameworks_data by (rule sort_by_rank)

lemma distinct_map_insort:
  "distinct (map g (insort_key f x xs)) = (g x \<notin> g ` set xs \<and> distinct (map g xs))"
  by (induction xs) (auto simp: set_insort_key)

lemma distinct_names_sort: "distinct (map g (sort_key f xs)) = distinct (map g xs)"
  by (induction xs) (simp_all add: sort_key_simps distinct_map_insort)

text \<open>
  Claim C3. No two entries of the list returned by the framework detector have the
  same name, and deduplicating that list again returns it unchanged.
\<close>

theorem unique_names_idempotent:
  "distinct (map name (data (detectFrameworks html hdrs)))
   \<and> deduplicateTechnologies (data (detectFrameworks html hdrs)) = data (detectFrameworks html hdrs)"
proof -
  have d: "distinct (map name (data (detectFrameworks html hdrs)))"
    unfolding detectFrameworks_data by (simp add: distinct_names_sort deduplicate_distinct)
  then show ?thesis by (simp add: deduplicate_idem_distinct)
qed

section \<open>Properties of the matcher\<close>

lemma advances_refl: "advances s s"
  unfolding advances_def by simp

lemma advances_trans: "advances a b \<Longrightarrow> advances b c \<Longrightarrow> advances a c"
  unfolding advances_def by auto

lemma advances_clear: "advances (clearGroups r s) s' = advances s s'"
  unfolding advances_def clearGroups_def by simp

lemma advances_length: "advances s s' \<Longrightarrow> length (rest s') \<le> length (rest s)"
  unfolding advances_def by auto

lemma advances_stepChar: "s' \<in> set (stepChar P s) \<Longrightarrow> advances s s'"
  by (cases s) (auto simp: stepChar_def advances_def split: list.splits if_splits)

lemma stepChar_shorter: "s' \<in> set (stepChar P s) \<Longrightarrow> length (rest s') < length (rest s)"
  by (cases s) (auto simp: stepChar_def split: list.splits if_splits)

lemma stepChar_capture: "s' \<in> set (stepChar P s) \<Longrightarrow> group1 s' = group1 s"
  by (cases s) (auto simp: stepChar_def split: list.splits if_splits)

lemma advances_iterate:
  assumes "\<And>t t'. t' \<in> set (f t) \<Longrightarrow> advances t t'"
  shows "s' \<in> set (iterate f n s) \<Longrightarrow> advances s s'"
proof (induction n arbitrary: s)
  case 0
  then show ?case by (simp add: advances_refl)
next
  case (Suc n)
  then show ?case
    by (auto simp: advances_refl split: if_splits intro: advances_trans[OF assms])
qed

text \<open>The fuel of the star is enough: more fuel than characters left does not
  change the result.\<close>

lemma iterate_more_fuel:
  "length (rest s) \<le> n \<Longrightarrow> iterate f (Suc n) s = iterate f n s"
proof (induction n arbitrary: s)
  case 0
  then show ?case by simp
next
  case (Suc n)
  have "\<And>s'. length (rest s') < length (rest s) \<Longrightarrow> iterate f (Suc n) s' = iterate f n s'"
    using Suc.prems by (intro Suc.IH) simp
  then have eq: "map (\<lambda>s'. if length (rest s') < length (rest s) then iterate f (Suc n) s' else []) (f s)
           = map (\<lambda>s'. if length (rest s') < length (rest s) then iterate f n s' else []) (f s)"
    by (intro map_cong) simp_all
  have "iterate f (Suc (Suc n)) s =
          concat (map (\<lambda>s'. if length (rest s') < length (rest s) then iterate f (Suc n) s' else []) (f s))
          @ [s]"
    by (rule iterate.simps(2))
  also have "\<dots> = concat (map (\<lambda>s'. if length (rest s') < length (rest s) then iterate f n s' else []) (f s))
          @ [s]"
    by (simp only: eq)
  also have "\<dots> = iterate f (Suc n) s"
    by (rule iterate.simps(2)[symmetric])
  finally show ?case .
qed

lemma iterate_fuel:
  "length (rest s) \<le> n \<Longrightarrow> iterate f n s = iterate f (length (rest s)) s"
proof (induction "n - length (rest s)" arbitrary: n)
  case 0
  then show ?case by simp
next
  case (Suc k)
  then obtain m where m: "n = Suc m" and le: "length (rest s) \<le> m" and k: "k = m - length (rest s)"
    by (cases n) auto
  have "iterate f (Suc m) s = iterate f m s" using le by (rule iterate_more_fuel)
  also have "\<dots> = iterate f (length (rest s)) s" using Suc.hyps(1)[OF k le] .
  finally show ?case using m by simp
qed

lemma advances_rmatch: "s' \<in> set (rmatch ic r s) \<Longrightarrow> advances s s'"
proof (induction r arbitrary: s s')
  case Empty
  then show ?case by (simp add: advances_refl)
next
  case (Chr a)
  then show ?case by (simp add: advances_stepChar)
next
  case Dot
  then show ?case by (simp add: advances_stepChar)
next
  case (Cls n items)
  then show ?case by (simp add: advances_stepChar)
next
  case WordBoundary
  then show ?case by (simp add: advances_refl split: if_splits)
next
  case (Seq r1 r2)
  from Seq.prems obtain s1 where "s1 \<in> set (rmatch ic r1 s)" and "s' \<in> set (rmatch ic r2 s1)"
    by auto
  then show ?case using Seq.IH advances_trans by blast
next
  case (Alt r1 r2)
  then show ?case by auto
next
  case (Star r)
  have "\<And>t t'. t' \<in> set (rmatch ic r (clearGroups r t)) \<Longrightarrow> advances t t'"
    using Star.IH advances_clear by blast
  then show ?case
    using Star.prems advances_iterate[of "\<lambda>t. rmatch ic r (clearGroups r t)"] by simp
next
  case (Plus r)
  have step: "\<And>t t'. t' \<in> set (rmatch ic r (clearGroups r t)) \<Longrightarrow> advances t t'"
    using Plus.IH advances_clear by blast
  from Plus.prems obtain s1 where s1: "s1 \<in> set (rmatch ic r (clearGroups r s))"
    and s': "s' \<in> set (iterate (\<lambda>t. rmatch ic r (clearGroups r t)) (length (rest s1)) s1)"
    by auto
  have "advances s s1" using s1 by (rule step)
  moreover have "advances s1 s'"
    using s' step by (rule advances_iterate[of "\<lambda>t. rmatch ic r (clearGroups r t)", rotated])
  ultimately show ?case by (rule advances_trans)
next
  case (Opt r)
  from Opt.prems have "s' = s \<or> s' \<in> set (rmatch ic r (clearGroups r s))" by auto
  then show ?case using Opt.IH advances_clear advances_refl by blast
next
  case (Group r)
  then obtain s1 where "s1 \<in> set (rmatch ic r s)"
    and "s' = MState (before s1) (rest s1) (Some (consumed s s1))"
    by auto
  then show ?case using Group.IH[of s1 s] unfolding advances_def by simp
qed

lemma consuming_shorter:
  "consuming r \<Longrightarrow> s' \<in> set (rmatch ic r s) \<Longrightarrow> length (rest s') < length (rest s)"
proof (induction r arbitrary: s s')
  case (Seq r1 r2)
  from Seq.prems(2) obtain s1 where s1: "s1 \<in> set (rmatch ic r1 s)" and s': "s' \<in> set (rmatch ic r2 s1)"
    by auto
  have l1: "length (rest s1) \<le> length (rest s)" using s1 by (intro advances_length advances_rmatch)
  have l2: "length (rest s') \<le> length (rest s1)" using s' by (intro advances_length advances_rmatch)
  show ?case
  proof (cases "consuming r1")
    case True
    then have "length (rest s1) < length (rest s)" using Seq.IH(1) s1 by blast
    then show ?thesis using l2 by linarith
  next
    case False
    then have "consuming r2" using Seq.prems(1) by simp
    then have "length (rest s') < length (rest s1)" using Seq.IH(2) s' by blast
    then show ?thesis using l1 by linarith
  qed
next
  case (Plus r)
  from Plus.prems obtain s1 where s1: "s1 \<in> set (rmatch ic r (clearGroups r s))"
    and s': "s' \<in> set (iterate (\<lambda>t. rmatch ic r (clearGroups r t)) (length (rest s1)) s1)"
    by auto
  have "length (rest s1) < length (rest (clearGroups r s))" using Plus.IH Plus.prems(1) s1 by simp
  then have "length (rest s1) < length (rest s)" by (simp add: clearGroups_def split: if_splits)
  moreover have "advances s1 s'"
    using s' advances_iterate[of "\<lambda>t. rmatch ic r (clearGroups r t)"]
    by (metis advances_clear advances_rmatch)
  ultimately show ?case using advances_length[of s1 s'] by linarith
next
  case (Alt r1 r2)
  then show ?case by auto
next
  case (Group r)
  then show ?case by auto
qed (simp_all add: stepChar_shorter)

lemma consumed_nonempty: "length (rest s') < length (rest s) \<Longrightarrow> consumed s s' \<noteq> []"
  unfolding consumed_def by auto

lemma capture_iterate:
  assumes "\<And>t t'. captureOk t \<Longrightarrow> t' \<in> set (f t) \<Longrightarrow> captureOk t'"
  shows "captureOk s \<Longrightarrow> s' \<in> set (iterate f n s) \<Longrightarrow> captureOk s'"
proof (induction n arbitrary: s)
  case 0
  then show ?case by simp
next
  case (Suc n)
  from Suc.prems(2) have "s' = s \<or> (\<exists>s1\<in>set (f s). s' \<in> set (iterate f n s1))"
    by (auto split: if_splits)
  then show ?case using Suc.IH Suc.prems(1) assms by blast
qed

lemma clearGroups_capture: "captureOk s \<Longrightarrow> captureOk (clearGroups r s)"
  unfolding clearGroups_def captureOk_def by simp

lemma stepChar_captureOk: "captureOk s \<Longrightarrow> s' \<in> set (stepChar P s) \<Longrightarrow> captureOk s'"
  unfolding captureOk_def by (simp add: stepChar_capture)

lemma capture_rmatch:
  "groupsConsume r \<Longrightarrow> captureOk s \<Longrightarrow> s' \<in> set (rmatch ic r s) \<Longrightarrow> captureOk s'"
proof (induction r arbitrary: s s')
  case Empty
  then show ?case by simp
next
  case (Chr a)
  then show ?case using stepChar_captureOk by simp
next
  case Dot
  then show ?case using stepChar_captureOk by simp
next
  case (Cls n items)
  then show ?case using stepChar_captureOk by simp
next
  case WordBoundary
  then show ?case by (simp split: if_splits)
next
  case (Seq r1 r2)
  from Seq.prems(3) obtain s1 where s1: "s1 \<in> set (rmatch ic r1 s)" and s': "s' \<in> set (rmatch ic r2 s1)"
    by auto
  have g: "groupsConsume r1" "groupsConsume r2" using Seq.prems(1) by simp_all
  have "captureOk s1" using Seq.IH(1)[OF g(1) Seq.prems(2) s1] .
  then show ?case using Seq.IH(2)[OF g(2) _ s'] by blast
next
  case (Alt r1 r2)
  have g: "groupsConsume r1" "groupsConsume r2" using Alt.prems(1) by simp_all
  from Alt.prems(3) have "s' \<in> set (rmatch ic r1 s) \<or> s' \<in> set (rmatch ic r2 s)" by simp
  then show ?case using Alt.IH(1)[OF g(1) Alt.prems(2)] Alt.IH(2)[OF g(2) Alt.prems(2)] by blast
next
  case (Star r)
  have g: "groupsConsume r" using Star.prems(1) by simp
  have step: "\<And>t t'. captureOk t \<Longrightarrow> t' \<in> set (rmatch ic r (clearGroups r t)) \<Longrightarrow> captureOk t'"
    using Star.IH[OF g] clearGroups_capture by blast
  from Star.prems(3)
  have it: "s' \<in> set (iterate (\<lambda>t. rmatch ic r (clearGroups r t)) (length (rest s)) s)" by simp
  show ?case
  proof (rule capture_iterate[where f = "\<lambda>t. rmatch ic r (clearGroups r t)"])
    show "\<And>t t'. captureOk t \<Longrightarrow> t' \<in> set (rmatch ic r (clearGroups r t)) \<Longrightarrow> captureOk t'"
      by (rule step)
    show "captureOk s" by (rule Star.prems(2))
    show "s' \<in> set (iterate (\<lambda>t. rmatch ic r (clearGroups r t)) (length (rest s)) s)" by (rule it)
  qed
next
  case (Plus r)
  have g: "groupsConsume r" using Plus.prems(1) by simp
  have step: "\<And>t t'. captureOk t \<Longrightarrow> t' \<in> set (rmatch ic r (clearGroups r t)) \<Longrightarrow> captureOk t'"
    using Plus.IH[OF g] clearGroups_capture by blast
  from Plus.prems(3) obtain s1 where s1: "s1 \<in> set (rmatch ic r (clearGroups r s))"
    and s': "s' \<in> set (iterate (\<lambda>t. rmatch ic r (clearGroups r t)) (length (rest s1)) s1)"
    by auto
  have c1: "captureOk s1" using step Plus.prems(2) s1 by blast
  show ?case
  proof (rule capture_iterate[where f = "\<lambda>t. rmatch ic r (clearGroups r t)"])
    show "\<And>t t'. captureOk t \<Longrightarrow> t' \<in> set (rmatch ic r (clearGroups r t)) \<Longrightarrow> captureOk t'"
      by (rule step)
    show "captureOk s1" by (rule c1)
    show "s' \<in> set (iterate (\<lambda>t. rmatch ic r (clearGroups r t)) (length (rest s1)) s1)" by (rule s')
  qed
next
  case (Opt r)
  have g: "groupsConsume r" using Opt.prems(1) by simp
  from Opt.prems(3) have "s' = s \<or> s' \<in> set (rmatch ic r (clearGroups r s))" by auto
  then show ?case using Opt.IH[OF g] Opt.prems(2) clearGroups_capture by blast
next
  case (Group r)
  from Group.prems(3) obtain s1 where s1: "s1 \<in> set (rmatch ic r s)"
    and s': "s' = MState (before s1) (rest s1) (Some (consumed s s1))"
    by auto
  have "consuming r" using Group.prems(1) by simp
  then have "length (rest s1) < length (rest s)" using s1 by (rule consuming_shorter)
  then show ?case using s' by (simp add: consumed_nonempty captureOk_def)
qed

lemma consumed_advances: "advances s s' \<Longrightarrow> rest s = consumed s s' @ rest s'"
  unfolding advances_def consumed_def by auto

lemma execFrom_sound:
  "execFrom ic r pre cont = Some m \<Longrightarrow>
     length pre \<le> index m \<and> index m - length pre \<le> length cont
     \<and> prefix (group0 m) (drop (index m - length pre) cont)
     \<and> (groupsConsume r \<longrightarrow> capture1 m \<noteq> Some [])"
proof (induction cont arbitrary: pre)
  case Nil
  then obtain s ss where s: "rmatch ic r (MState pre [] None) = s # ss"
    and m: "m = \<lparr>index = length pre, group0 = [], capture1 = group1 s\<rparr>"
    by (auto split: list.splits)
  have "s \<in> set (rmatch ic r (MState pre [] None))" using s by simp
  then have "groupsConsume r \<longrightarrow> captureOk s"
    using capture_rmatch[of r "MState pre [] None" s ic] by (simp add: captureOk_def)
  then show ?case using m by (simp add: captureOk_def)
next
  case (Cons c cs)
  show ?case
  proof (cases "rmatch ic r (MState pre (c # cs) None)")
    case Nil
    then have "execFrom ic r (c # pre) cs = Some m" using Cons.prems by simp
    from Cons.IH[OF this] show ?thesis
      by (auto simp: Suc_le_eq drop_Cons' split: if_splits)
  next
    case (Cons s ss)
    then have m: "m = \<lparr>index = length pre, group0 = consumed (MState pre (c # cs) None) s,
                         capture1 = group1 s\<rparr>"
      using Cons.prems by simp
    have mem: "s \<in> set (rmatch ic r (MState pre (c # cs) None))" using Cons by simp
    then have "advances (MState pre (c # cs) None) s" by (rule advances_rmatch)
    then have "c # cs = consumed (MState pre (c # cs) None) s @ rest s"
      using consumed_advances by fastforce
    then have p: "prefix (consumed (MState pre (c # cs) None) s) (c # cs)"
      by (metis prefixI)
    have "groupsConsume r \<longrightarrow> captureOk s"
      using capture_rmatch[of r "MState pre (c # cs) None" s ic] mem by (simp add: captureOk_def)
    then show ?thesis using m p by (simp add: captureOk_def)
  qed
qed

lemma exec_substring:
  assumes "exec re content = Some m"
  shows "index m \<le> length content" and "prefix (group0 m) (drop (index m) content)"
  using execFrom_sound[of "ignoreCase re" "source re" "[]" content m] assms
  unfolding exec_def by simp_all

lemma exec_capture:
  "groupsConsume (source re) \<Longrightarrow> exec re content = Some m \<Longrightarrow> capture1 m \<noteq> Some []"
  using execFrom_sound[of "ignoreCase re" "source re" "[]" content m]
  unfolding exec_def by simp

lemma extractVersion_nonempty:
  "versionPatternOk sg \<Longrightarrow> extractVersion html (versionPattern sg) \<noteq> Some []"
  unfolding versionPatternOk_def extractVersion_def
  by (auto split: option.splits dest: exec_capture)

lemma consuming_lit: "w \<noteq> [] \<Longrightarrow> consuming (lit w)"
  by (induction w rule: lit.induct) simp_all

lemma groupsConsume_lit: "groupsConsume (lit w)"
  by (induction w rule: lit.induct) simp_all

lemma catalog_versionPatterns: "list_all versionPatternOk frameworkSignatures"
  unfolding frameworkSignatures_def versionPatternOk_def semverGroup_def dotOrDash_def digitCls_def
  by (simp add: groupsConsume_lit)

section \<open>The header pass\<close>

lemma scanRules_eq:
  "scanRules h v rs detected =
     detected @ (case find (\<lambda>r. matchesPattern v (pattern r)) rs of
                   None \<Rightarrow> []
                 | Some r \<Rightarrow> [\<lparr>name = technology r, version = None, confidence = high,
                                category = hdr_category r, evidence = Some (h @ '': '' @ v)\<rparr>])"
  by (induction rs) simp_all

lemma find_rejecting: "list_all (\<lambda>r. \<not> P r) rs \<Longrightarrow> find P rs = None"
  by (induction rs) simp_all

lemma headerStep_eq:
  "rulesRejectEmpty sg \<Longrightarrow> headerStep nh sg detected = detected @ headerEmit nh sg"
  unfolding headerStep_def headerEmit_def rulesRejectEmpty_def
  by (auto simp: scanRules_eq find_rejecting split: option.splits)

lemma headerLoop_eq:
  "list_all rulesRejectEmpty sgs \<Longrightarrow>
   headerLoop nh sgs detected = detected @ concat (map (headerEmit nh) sgs)"
  by (induction sgs arbitrary: detected) (simp_all add: headerStep_eq)

lemma catalog_rejects_empty: "list_all rulesRejectEmpty headerSignatures"
  by code_simp

lemma detectFromHeaders_eq:
  "detectFromHeaders hs = concat (map (headerEmit (normalizeHeaders hs)) headerSignatures)"
  unfolding detectFromHeaders_def by (simp add: headerLoop_eq catalog_rejects_empty)

lemma headerEmit_high:
  "t \<in> set (headerEmit nh sg) \<Longrightarrow> confidence t = high \<and> version t = None"
  unfolding headerEmit_def by (auto split: option.splits)

lemma detectFromHeaders_high:
  "t \<in> set (detectFromHeaders hs) \<Longrightarrow> confidence t = high \<and> version t = None"
  unfolding detectFromHeaders_eq by (auto dest: headerEmit_high)

lemma detectFromHtml_version:
  "t \<in> set (detectFromHtml html) \<Longrightarrow> version t \<noteq> Some []"
proof -
  assume "t \<in> set (detectFromHtml html)"
  then obtain sg where "sg \<in> set frameworkSignatures" and t: "t = emitted html sg"
    unfolding detectFromHtml_def htmlLoop_eq by auto
  then have "versionPatternOk sg" using catalog_versionPatterns by (simp add: list_all_iff)
  then show ?thesis using t by (simp add: emitted_def extractVersion_nonempty)
qed

lemma combined_cases:
  "t \<in> set (combinedDetections html hdrs) \<Longrightarrow>
   t \<in> set (detectFromHtml html) \<or> (\<exists>hs. t \<in> set (detectFromHeaders hs))"
  unfolding combinedDetections_def Let_def by (auto split: option.splits if_splits)

lemma combined_truthy:
  "t \<in> set (combinedDetections html hdrs) \<Longrightarrow> truthy (version t) = (version t \<noteq> None)"
  using combined_cases[of t html hdrs] detectFromHtml_version[of t html] detectFromHeaders_high[of t]
  unfolding truthy_def by auto

text \<open>
  Claim C2. For the list combined from the HTML pass and the header pass, the
  deduplication keeps exactly one entry for every name of the list. The entry kept is
  an entry of the list with that name whose confidence is at least as good as that of
  every entry \<open>t\<close> with the name, and which carries a version whenever an entry with the
  name and the same confidence carries one.
\<close>

theorem dedup_keeps_best:
  assumes "t \<in> set (combinedDetections html hdrs)"
  shows "\<exists>e\<in>set (deduplicateTechnologies (combinedDetections html hdrs)).
           name e = name t \<and> e \<in> set (combinedDetections html hdrs)
           \<and> tier (confidence t) \<le> tier (confidence e)
           \<and> (confidence e = confidence t \<and> version t \<noteq> None \<longrightarrow> version e \<noteq> None)
           \<and> (\<forall>e'\<in>set (deduplicateTechnologies (combinedDetections html hdrs)).
                 name e' = name t \<longrightarrow> e' = e)"
proof -
  let ?L = "combinedDetections html hdrs"
  from deduplicate_best[OF assms] obtain e where e: "e \<in> set (deduplicateTechnologies ?L)"
    and n: "name e = name t" and m: "e \<in> set ?L" and d: "dominates e t"
    by blast
  have tv: "truthy (version t) = (version t \<noteq> None)" using assms by (rule combined_truthy)
  have ev: "truthy (version e) = (version e \<noteq> None)" using m by (rule combined_truthy)
  have uniq: "\<forall>e'\<in>set (deduplicateTechnologies ?L). name e' = name t \<longrightarrow> e' = e"
    using deduplicate_distinct[of ?L] e n
    by (metis distinct_map inj_onD)
  show ?thesis
    using e n m d uniq unfolding dominates_def tv ev by blast
qed

text \<open>
  Witness for C2: WordPress is detected with high confidence and a version from the
  HTML, and with high confidence and no version from the \<open>X-Generator\<close> header; the
  entry kept is the one with the version.
\<close>

theorem dedup_keeps_best_witness:
  "combinedDetections ''/wp-json/ /wp-content/ ver=6.4'' (Some [(''X-Generator'', ''WordPress 6.4'')])
     = [\<lparr>name = ''WordPress'', version = Some ''6.4'', confidence = high, category = cms,
          evidence = Some ''/wp-content/''\<rparr>,
        \<lparr>name = ''WordPress'', version = None, confidence = high, category = cms,
          evidence = Some ''x-generator: WordPress 6.4''\<rparr>]
   \<and> (\<exists>e\<in>set (deduplicateTechnologies
                  (combinedDetections ''/wp-json/ /wp-content/ ver=6.4''
                     (Some [(''X-Generator'', ''WordPress 6.4'')]))).
         name e = ''WordPress'' \<and> confidence e = high \<and> version e \<noteq> None)"
proof -
  let ?A = "\<lparr>name = ''WordPress'', version = Some ''6.4'', confidence = high, category = cms,
          evidence = Some ''/wp-content/''\<rparr>"
  let ?B = "\<lparr>name = ''WordPress'', version = None, confidence = high, category = cms,
          evidence = Some ''x-generator: WordPress 6.4''\<rparr>"
  let ?L = "combinedDetections ''/wp-json/ /wp-content/ ver=6.4'' (Some [(''X-Generator'', ''WordPress 6.4'')])"
  have c: "?L = [?A, ?B]" by code_simp
  then have m: "?B \<in> set ?L" by simp
  have a: "?A \<in> set ?L" using c by simp
  from dedup_keeps_best[OF m] obtain e where e: "e \<in> set (deduplicateTechnologies ?L)"
    and n: "name e = name ?B" and t: "tier (confidence ?B) \<le> tier (confidence e)"
    and u: "\<forall>e'\<in>set (deduplicateTechnologies ?L). name e' = name ?B \<longrightarrow> e' = e"
    by blast
  from dedup_keeps_best[OF a] obtain e2 where e2: "e2 \<in> set (deduplicateTechnologies ?L)"
    and n2: "name e2 = name ?A"
    and v2: "confidence e2 = confidence ?A \<and> version ?A \<noteq> None \<longrightarrow> version e2 \<noteq> None"
    by blast
  have "e2 = e" using u e2 n2 by simp
  moreover have "confidence e = high" using t by (cases "confidence e") simp_all
  ultimately have "version e \<noteq> None" using v2 by simp
  then show ?thesis using c e n \<open>confidence e = high\<close> by auto
qed

text \<open>
  Claim C4. The header pass goes through the header signatures of the catalog in
  order. For each it looks the header up under its lower-case name in the headers
  with lower-case keys, and the first rule, in declared order, whose pattern matches
  the value emits exactly one technology with confidence high, the evidence
  \<open>header: value\<close> and no version; the later rules of that header emit nothing. Every
  technology from the header pass has confidence high and no version. The headers
  \<open>X-Powered-By: Express\<close> with empty HTML give exactly one technology, Express, of
  category backend-framework, confidence high and evidence \<open>x-powered-by: Express\<close>.
\<close>

theorem header_detection:
  "detectFromHeaders hs =
     concat (map (\<lambda>sg. case normalizeHeaders hs (toLowerCase (header sg)) of
                          None \<Rightarrow> []
                        | Some headerValue \<Rightarrow>
                            (case find (\<lambda>r. matchesPattern headerValue (pattern r)) (hdr_patterns sg) of
                               None \<Rightarrow> []
                             | Some r \<Rightarrow> [\<lparr>name = technology r, version = None, confidence = high,
                                            category = hdr_category r,
                                            evidence = Some (header sg @ '': '' @ headerValue)\<rparr>]))
               headerSignatures)
   \<and> (\<forall>t\<in>set (detectFromHeaders hs). confidence t = high \<and> version t = None)
   \<and> detectFrameworks [] (Some [(''X-Powered-By'', ''Express'')]) =
       \<lparr>ok = True,
        data = [\<lparr>name = ''Express'', version = None, confidence = high,
                 category = backend_framework, evidence = Some ''x-powered-by: Express''\<rparr>],
        warnings = [''Empty HTML content provided'']\<rparr>"
proof -
  have a: "detectFromHeaders hs = concat (map (headerEmit (normalizeHeaders hs)) headerSignatures)"
    by (rule detectFromHeaders_eq)
  have b: "\<forall>t\<in>set (detectFromHeaders hs). confidence t = high \<and> version t = None"
    using detectFromHeaders_high by blast
  have c: "detectFrameworks [] (Some [(''X-Powered-By'', ''Express'')]) =
       \<lparr>ok = True,
        data = [\<lparr>name = ''Express'', version = None, confidence = high,
                 category = backend_framework, evidence = Some ''x-powered-by: Express''\<rparr>],
        warnings = [''Empty HTML content provided'']\<rparr>"
    by code_simp
  show ?thesis using a b c unfolding headerEmit_def by blast
qed

text \<open>
  Witness for C4: two headers, given in the other order than the catalog has them
  and with keys of mixed case; PHP is the second rule of its header.
\<close>

theorem header_detection_witness:
  "detectFromHeaders [(''X-Generator'', ''Ghost 5.0''), (''x-powered-by'', ''PHP/8.1.0'')]
     = [\<lparr>name = ''PHP'', version = None, confidence = high, category = runtime,
          evidence = Some ''x-powered-by: PHP/8.1.0''\<rparr>,
        \<lparr>name = ''Ghost'', version = None, confidence = high, category = cms,
          evidence = Some ''x-generator: Ghost 5.0''\<rparr>]
   \<and> list_all (\<lambda>t. confidence t = high \<and> version t = None)
        (detectFromHeaders [(''X-Generator'', ''Ghost 5.0''), (''x-powered-by'', ''PHP/8.1.0'')])"
proof -
  have v: "detectFromHeaders [(''X-Generator'', ''Ghost 5.0''), (''x-powered-by'', ''PHP/8.1.0'')]
     = [\<lparr>name = ''PHP'', version = None, confidence = high, category = runtime,
          evidence = Some ''x-powered-by: PHP/8.1.0''\<rparr>,
        \<lparr>name = ''Ghost'', version = None, confidence = high, category = cms,
          evidence = Some ''x-generator: Ghost 5.0''\<rparr>]"
    by code_simp
  from header_detection[of "[(''X-Generator'', ''Ghost 5.0''), (''x-powered-by'', ''PHP/8.1.0'')]"]
  have "\<forall>t\<in>set (detectFromHeaders [(''X-Generator'', ''Ghost 5.0''), (''x-powered-by'', ''PHP/8.1.0'')]).
          confidence t = high \<and> version t = None"
    by blast
  then show ?thesis using v by (simp only: list_all_iff)
qed

lemma normalizeHeaders_fold:
  "foldl (\<lambda>m (k, v). m(toLowerCase k \<mapsto> v)) m hs
     = m ++ map_of (rev (map (\<lambda>(k, v). (toLowerCase k, v)) hs))"
  by (induction hs arbitrary: m) (auto simp: map_add_def fun_eq_iff split: option.splits)

lemma normalizeHeaders_last:
  "normalizeHeaders hs = map_of (rev (map (\<lambda>(k, v). (toLowerCase k, v)) hs))"
  unfolding normalizeHeaders_def normalizeHeaders_fold by simp

section \<open>Evidence\<close>

lemma indexOf_first: "indexOf content p = Some i \<longleftrightarrow> firstOccurrence content p i"
proof (induction content arbitrary: i)
  case Nil
  then show ?case by (auto simp: firstOccurrence_def)
next
  case (Cons c cs)
  show ?case
  proof (cases "prefix p (c # cs)")
    case True
    have "firstOccurrence (c # cs) p i \<longleftrightarrow> i = 0"
    proof
      assume f: "firstOccurrence (c # cs) p i"
      show "i = 0"
      proof (rule ccontr)
        assume "i \<noteq> 0"
        then have "\<not> prefix p (drop 0 (c # cs))" using f unfolding firstOccurrence_def by blast
        then show False using True by simp
      qed
    next
      assume "i = 0"
      then show "firstOccurrence (c # cs) p i" using True by (simp add: firstOccurrence_def)
    qed
    then show ?thesis using True by auto
  next
    case False
    have "firstOccurrence (c # cs) p i \<longleftrightarrow> (\<exists>k. i = Suc k \<and> firstOccurrence cs p k)"
    proof
      assume f: "firstOccurrence (c # cs) p i"
      then have "i \<noteq> 0" using False unfolding firstOccurrence_def by (cases i) auto
      then obtain k where k: "i = Suc k" by (cases i) auto
      have "\<forall>j<k. \<not> prefix p (drop j cs)"
      proof (intro allI impI)
        fix j assume "j < k"
        then have "Suc j < i" using k by simp
        then have "\<not> prefix p (drop (Suc j) (c # cs))" using f unfolding firstOccurrence_def by blast
        then show "\<not> prefix p (drop j cs)" by simp
      qed
      then have "firstOccurrence cs p k" using f k unfolding firstOccurrence_def by simp
      then show "\<exists>k. i = Suc k \<and> firstOccurrence cs p k" using k by blast
    next
      assume "\<exists>k. i = Suc k \<and> firstOccurrence cs p k"
      then obtain k where k: "i = Suc k" and f: "firstOccurrence cs p k" by blast
      have "\<forall>j<i. \<not> prefix p (drop j (c # cs))"
      proof (intro allI impI)
        fix j assume j: "j < i"
        show "\<not> prefix p (drop j (c # cs))"
        proof (cases j)
          case 0
          then show ?thesis using False by simp
        next
          case (Suc j')
          then have "j' < k" using j k by simp
          then show ?thesis using f Suc unfolding firstOccurrence_def by simp
        qed
      qed
      then show "firstOccurrence (c # cs) p i" using f k unfolding firstOccurrence_def by simp
    qed
    then show ?thesis using False Cons.IH by auto
  qed
qed

lemma clamp_start: "nat (max 0 (int i - 20)) = i - 20"
  by (cases "20 \<le> i") (simp_all add: max_def nat_diff_distrib')

lemma findEvidence_skip:
  "\<forall>q\<in>set pre. \<not> matchesPattern content q \<Longrightarrow>
   findEvidence content (pre @ ps) = findEvidence content ps"
proof (induction pre)
  case Nil
  then show ?case by simp
next
  case (Cons q pre)
  then have "\<not> matchesPattern content q" by simp
  then show ?case using Cons
    by (cases q) (auto simp: matchesPattern_def includesStr_def test_def)
qed

lemma findEvidence_none:
  "\<forall>q\<in>set ps. \<not> matchesPattern content q \<Longrightarrow> findEvidence content ps = None"
  using findEvidence_skip[of ps content "[]"] by simp

text \<open>
  Claim C6. Let no rule of \<open>pre\<close> match the text. If the next rule is a literal that
  occurs in the text, first at index \<open>i\<close>, then \<open>findEvidence\<close> returns the text from 20
  characters before \<open>i\<close> to 20 characters after the end of the occurrence, clamped to
  the text, between two \<open>...\<close> markers. If the next rule is a regular expression that
  matches, \<open>findEvidence\<close> returns the matched text (group 0), which is the part of the
  text at the index of the match, with no markers. If no rule matches at all, it
  returns nothing.
\<close>

theorem findEvidence_first_match:
  assumes "\<forall>q\<in>set pre. \<not> matchesPattern content q"
  shows "(\<forall>l i. firstOccurrence content l i \<longrightarrow>
            findEvidence content (pre @ Str l # post) =
              Some (''...'' @ slice content (i - 20) (min (length content) (i + length l + 20)) @ ''...''))
       \<and> (\<forall>re m. exec re content = Some m \<longrightarrow>
            findEvidence content (pre @ Rx re # post) = Some (group0 m)
            \<and> group0 m = take (length (group0 m)) (drop (index m) content))
       \<and> findEvidence content pre = None"
proof (intro conjI allI impI)
  fix l i assume "firstOccurrence content l i"
  then have "indexOf content l = Some i" by (simp add: indexOf_first)
  then show "findEvidence content (pre @ Str l # post) =
      Some (''...'' @ slice content (i - 20) (min (length content) (i + length l + 20)) @ ''...'')"
    using assms by (simp add: findEvidence_skip Let_def clamp_start)
next
  fix re m assume e: "exec re content = Some m"
  then show "findEvidence content (pre @ Rx re # post) = Some (group0 m)"
    using assms by (simp add: findEvidence_skip)
  show "group0 m = take (length (group0 m)) (drop (index m) content)"
    using exec_substring(2)[OF e] by (auto simp: prefix_def)
next
  show "findEvidence content pre = None" using assms by (rule findEvidence_none)
qed

text \<open>
  Witness for C6: the literal \<open>react\<close> does not occur, the literal \<open>jquery\<close> occurs first
  at index 23; the window starts at index 3 and is cut at the end of the text.
\<close>

theorem findEvidence_first_match_witness:
  "firstOccurrence ''<script src=/static/js/jquery.min.js></script>'' ''jquery'' 23
   \<and> findEvidence ''<script src=/static/js/jquery.min.js></script>'' [Str ''react'', Str ''jquery'']
       = Some ''...ript src=/static/js/jquery.min.js></script>...''
   \<and> findEvidence ''<script src=/static/js/jquery.min.js></script>''
         [Str ''react'', rx (seqs [lit ''jquery'', Star (Cls True [CChar (CHR ''>'')])])]
       = Some ''jquery.min.js''
   \<and> findEvidence ''<script src=/static/js/jquery.min.js></script>'' [Str ''react''] = None"
proof -
  let ?c = "''<script src=/static/js/jquery.min.js></script>''"
  let ?re = "\<lparr>source = seqs [lit ''jquery'', Star (Cls True [CChar (CHR ''>'')])], ignoreCase = False\<rparr>"
  have n: "\<forall>q\<in>set [Str ''react'']. \<not> matchesPattern ?c q"
  proof -
    have "\<not> matchesPattern ?c (Str ''react'')" by code_simp
    then show ?thesis by simp
  qed
  have i: "indexOf ?c ''jquery'' = Some 23" by code_simp
  then have f: "firstOccurrence ?c ''jquery'' 23" by (simp only: indexOf_first)
  have e: "exec ?re ?c = Some \<lparr>index = 23, group0 = ''jquery.min.js'', capture1 = None\<rparr>"
    by code_simp
  have s: "''...'' @ slice ?c (23 - 20) (min (length ?c) (23 + length ''jquery'' + 20)) @ ''...''
           = ''...ript src=/static/js/jquery.min.js></script>...''"
    by code_simp
  from findEvidence_first_match[OF n, of "[]"] f e s
  show ?thesis unfolding rx_def by simp
qed

section \<open>The analytics detector: one entry per name, the first match wins\<close>

lemma scanPatterns_eq:
  "scanPatterns html nh sg ps (d, seen) =
     (case find (\<lambda>p. matchesPattern html p \<or> matchesPattern nh p) ps of
        None \<Rightarrow> (d, seen)
      | Some p \<Rightarrow> (d @ [analyticsEntry html sg p], insert (as_name sg) seen))"
  by (induction ps) (simp_all add: analyticsEntry_def)

lemma analyticsStep_eq:
  "analyticsStep html (toLowerCase html) sg (d, seen) =
     (if as_name sg \<in> seen then (d, seen)
      else case analyticsHit html sg of
             None \<Rightarrow> (d, seen)
           | Some p \<Rightarrow> (d @ [analyticsEntry html sg p], insert (as_name sg) seen))"
  unfolding analyticsStep_def analyticsHit_def by (simp add: scanPatterns_eq)

lemma loopInv_skip:
  assumes "loopInv html sgs d st'" and "as_name sg \<in> an_name ` set d \<or> analyticsHit html sg = None"
  shows "loopInv html (sg # sgs) d st'"
proof -
  from assms(1) obtain new where new: "fst st' = d @ new"
    and sub: "subseq (map an_name new) (map as_name sgs)"
    and src: "\<forall>x\<in>set new. \<exists>sg\<in>set sgs. \<exists>p. analyticsHit html sg = Some p \<and> x = analyticsEntry html sg p"
    and seen: "snd st' = an_name ` set (fst st')"
    unfolding loopInv_def by blast
  have "subseq (map an_name new) (map as_name (sg # sgs))" using sub by (simp add: list_emb_Cons)
  moreover have "\<forall>x\<in>set new. \<exists>sg'\<in>set (sg # sgs). \<exists>p. analyticsHit html sg' = Some p
                     \<and> x = analyticsEntry html sg' p"
    using src by auto
  moreover have "analyticsHit html sg \<noteq> None \<longrightarrow> as_name sg \<in> snd st'"
    using assms(2) seen new by auto
  ultimately show ?thesis using assms(1) new unfolding loopInv_def by auto
qed

lemma loopInv_emit:
  assumes "loopInv html sgs (d @ [analyticsEntry html sg p]) st'"
    and "analyticsHit html sg = Some p"
  shows "loopInv html (sg # sgs) d st'"
proof -
  let ?e = "analyticsEntry html sg p"
  from assms(1) obtain new where new: "fst st' = (d @ [?e]) @ new"
    and sub: "subseq (map an_name new) (map as_name sgs)"
    and src: "\<forall>x\<in>set new. \<exists>sg\<in>set sgs. \<exists>p. analyticsHit html sg = Some p \<and> x = analyticsEntry html sg p"
    and seen: "snd st' = an_name ` set (fst st')"
    unfolding loopInv_def by blast
  have n: "an_name ?e = as_name sg" by (simp add: analyticsEntry_def)
  have 1: "fst st' = d @ (?e # new)" using new by simp
  have 2: "subseq (map an_name (?e # new)) (map as_name (sg # sgs))" using sub n by simp
  have 3: "\<forall>x\<in>set (?e # new). \<exists>sg'\<in>set (sg # sgs). \<exists>p. analyticsHit html sg' = Some p
                     \<and> x = analyticsEntry html sg' p"
    using src assms(2) by auto
  have 4: "as_name sg \<in> snd st'" using seen new n by force
  show ?thesis
    unfolding loopInv_def
  proof (intro conjI)
    show "snd st' = an_name ` set (fst st')" by (rule seen)
    show "distinct (map an_name (fst st'))" using assms(1) unfolding loopInv_def by blast
    show "\<exists>new. fst st' = d @ new \<and> subseq (map an_name new) (map as_name (sg # sgs))
            \<and> (\<forall>x\<in>set new. \<exists>sg\<in>set (sg # sgs). \<exists>p. analyticsHit html sg = Some p
                                 \<and> x = analyticsEntry html sg p)"
      using 1 2 3 by blast
    show "\<forall>sg\<in>set (sg # sgs). analyticsHit html sg \<noteq> None \<longrightarrow> as_name sg \<in> snd st'"
      using 4 assms(1) unfolding loopInv_def by auto
  qed
qed

lemma analyticsLoop_inv:
  "seen = an_name ` set d \<Longrightarrow> distinct (map an_name d) \<Longrightarrow>
   loopInv html sgs d (analyticsLoop html (toLowerCase html) sgs (d, seen))"
proof (induction sgs arbitrary: d seen)
  case Nil
  then show ?case unfolding loopInv_def by simp
next
  case (Cons sg sgs)
  show ?case
  proof (cases "as_name sg \<in> seen \<or> analyticsHit html sg = None")
    case True
    then have step: "analyticsStep html (toLowerCase html) sg (d, seen) = (d, seen)"
      by (auto simp: analyticsStep_eq)
    have loop: "analyticsLoop html (toLowerCase html) (sg # sgs) (d, seen)
                  = analyticsLoop html (toLowerCase html) sgs (d, seen)"
      by (simp add: step)
    have skip: "as_name sg \<in> an_name ` set d \<or> analyticsHit html sg = None"
      using True Cons.prems(1) by simp
    have "loopInv html sgs d (analyticsLoop html (toLowerCase html) sgs (d, seen))"
      using Cons.IH[OF Cons.prems] .
    then show ?thesis unfolding loop using skip by (rule loopInv_skip)
  next
    case False
    then obtain p where p: "analyticsHit html sg = Some p" and ns: "as_name sg \<notin> seen" by auto
    let ?e = "analyticsEntry html sg p"
    have step: "analyticsStep html (toLowerCase html) sg (d, seen) = (d @ [?e], insert (as_name sg) seen)"
      using p ns by (simp add: analyticsStep_eq)
    have n: "an_name ?e = as_name sg" by (simp add: analyticsEntry_def)
    have s1: "insert (as_name sg) seen = an_name ` set (d @ [?e])" using Cons.prems(1) n by auto
    have d1: "distinct (map an_name (d @ [?e]))" using Cons.prems ns n by auto
    have loop: "analyticsLoop html (toLowerCase html) (sg # sgs) (d, seen)
                  = analyticsLoop html (toLowerCase html) sgs (d @ [?e], insert (as_name sg) seen)"
      by (simp add: step)
    have "loopInv html sgs (d @ [?e]) (analyticsLoop html (toLowerCase html) sgs (d @ [?e], insert (as_name sg) seen))"
      using Cons.IH[OF s1 d1] .
    then show ?thesis unfolding loop using p by (rule loopInv_emit)
  qed
qed

lemma detectAnalytics_data:
  "\<not> emptyHtml html \<Longrightarrow>
   data (detectAnalytics html) = fst (analyticsLoop html (toLowerCase html) analyticsSignatures ([], {}))"
  unfolding detectAnalytics_def createResponse_def by simp

text \<open>
  Claim C7. For HTML that is not empty, the names of the detections of the analytics
  detector are distinct and come in catalog order. Every detection belongs to a
  signature of the catalog and to the first pattern of that signature that matches
  the HTML or its lower-case copy; its name and type are those of the signature, its
  evidence is \<open>findEvidence\<close> of that one pattern on the HTML as given, and it has no
  other field. Every signature with such a pattern has its name among the detections.
  HTML with two \<open>gtag('config', ...)\<close> calls gives exactly one Google Analytics entry.
\<close>

theorem analytics_first_match:
  assumes "\<not> emptyHtml html"
  shows "distinct (map an_name (data (detectAnalytics html)))
       \<and> subseq (map an_name (data (detectAnalytics html))) (map as_name analyticsSignatures)
       \<and> (\<forall>d\<in>set (data (detectAnalytics html)).
             \<exists>sg\<in>set analyticsSignatures. \<exists>p.
               find (\<lambda>p. matchesPattern html p \<or> matchesPattern (toLowerCase html) p) (as_patterns sg)
                 = Some p
               \<and> d = \<lparr>an_name = as_name sg, an_type = as_type sg, an_evidence = findEvidence html [p]\<rparr>)
       \<and> (\<forall>sg\<in>set analyticsSignatures.
             find (\<lambda>p. matchesPattern html p \<or> matchesPattern (toLowerCase html) p) (as_patterns sg) \<noteq> None
             \<longrightarrow> as_name sg \<in> an_name ` set (data (detectAnalytics html)))
       \<and> data (detectAnalytics ''gtag('config', 'UA-1-1'); gtag('config', 'UA-2-1');'')
           = [\<lparr>an_name = ''Google Analytics'', an_type = analytics_type, an_evidence = Some ''gtag(''\<rparr>]"
proof -
  let ?st = "analyticsLoop html (toLowerCase html) analyticsSignatures ([], {})"
  have inv: "loopInv html analyticsSignatures [] ?st"
    by (rule analyticsLoop_inv) simp_all
  have dat: "data (detectAnalytics html) = fst ?st" using assms by (rule detectAnalytics_data)
  have sc: "data (detectAnalytics ''gtag('config', 'UA-1-1'); gtag('config', 'UA-2-1');'')
           = [\<lparr>an_name = ''Google Analytics'', an_type = analytics_type, an_evidence = Some ''gtag(''\<rparr>]"
    by code_simp
  show ?thesis
    using inv sc unfolding dat loopInv_def analyticsHit_def analyticsEntry_def by auto
qed

text \<open>
  Witness for C7: Google Tag Manager and Facebook Pixel are both detected, in the
  order of the catalog, not in the order of their occurrence in the HTML.
\<close>

theorem analytics_first_match_witness:
  "\<not> emptyHtml ''fbq('init'); GTM-X1''
   \<and> data (detectAnalytics ''fbq('init'); GTM-X1'')
       = [\<lparr>an_name = ''Google Tag Manager'', an_type = tracking_type, an_evidence = Some ''GTM-X1''\<rparr>,
          \<lparr>an_name = ''Facebook Pixel'', an_type = marketing_type, an_evidence = Some ''fbq(''\<rparr>]
   \<and> distinct (map an_name (data (detectAnalytics ''fbq('init'); GTM-X1'')))
   \<and> subseq (map an_name (data (detectAnalytics ''fbq('init'); GTM-X1''))) (map as_name analyticsSignatures)"
proof -
  have e: "\<not> emptyHtml ''fbq('init'); GTM-X1''" by code_simp
  have v: "data (detectAnalytics ''fbq('init'); GTM-X1'')
       = [\<lparr>an_name = ''Google Tag Manager'', an_type = tracking_type, an_evidence = Some ''GTM-X1''\<rparr>,
          \<lparr>an_name = ''Facebook Pixel'', an_type = marketing_type, an_evidence = Some ''fbq(''\<rparr>]"
    by code_simp
  show ?thesis using analytics_first_match[OF e] e v by blast
qed

text \<open>
  Claim C10. When the first pattern tried matches the lower-case copy of the HTML
  but not the HTML as given, the inner loop of the analytics detector still emits the
  detection, with no evidence. The HTML \<open>GA.JS\<close> is such an input: Google Analytics is
  detected and its evidence is absent.
\<close>

theorem evidence_undefined_on_lowercase_match:
  "(\<not> matchesPattern html p \<and> matchesPattern (toLowerCase html) p \<longrightarrow>
      scanPatterns html (toLowerCase html) sg (p # ps) (detected, seenNames) =
        (detected @ [\<lparr>an_name = as_name sg, an_type = as_type sg, an_evidence = None\<rparr>],
         insert (as_name sg) seenNames))
   \<and> data (detectAnalytics ''GA.JS'')
       = [\<lparr>an_name = ''Google Analytics'', an_type = analytics_type, an_evidence = None\<rparr>]"
proof -
  have "data (detectAnalytics ''GA.JS'')
       = [\<lparr>an_name = ''Google Analytics'', an_type = analytics_type, an_evidence = None\<rparr>]"
    by code_simp
  moreover have "\<not> matchesPattern html p \<longrightarrow> findEvidence html [p] = None"
    using findEvidence_none[of "[p]" html] by simp
  ultimately show ?thesis by simp
qed

text \<open>
  Witness for C10: the pattern \<open>ga\.js\<close> of Google Analytics on the HTML \<open>GA.JS\<close>.
\<close>

theorem evidence_undefined_witness:
  "\<not> matchesPattern ''GA.JS'' (rx (lit ''ga.js''))
   \<and> matchesPattern (toLowerCase ''GA.JS'') (rx (lit ''ga.js''))
   \<and> scanPatterns ''GA.JS'' (toLowerCase ''GA.JS'') (hd analyticsSignatures)
        (as_patterns (hd analyticsSignatures)) ([], {}) =
        ([\<lparr>an_name = ''Google Analytics'', an_type = analytics_type, an_evidence = None\<rparr>],
         {''Google Analytics''})"
proof -
  have a: "\<not> matchesPattern ''GA.JS'' (rx (lit ''ga.js''))" by code_simp
  have b: "matchesPattern (toLowerCase ''GA.JS'') (rx (lit ''ga.js''))" by code_simp
  have c: "as_patterns (hd analyticsSignatures) = rx (lit ''ga.js'') # tl (as_patterns (hd analyticsSignatures))"
    by code_simp
  have d: "as_name (hd analyticsSignatures) = ''Google Analytics''"
    and e: "as_type (hd analyticsSignatures) = analytics_type"
    by code_simp+
  from evidence_undefined_on_lowercase_match[of "''GA.JS''" "rx (lit ''ga.js'')" "hd analyticsSignatures"
      "tl (as_patterns (hd analyticsSignatures))" "[]" "{}"] a b
  have "scanPatterns ''GA.JS'' (toLowerCase ''GA.JS'') (hd analyticsSignatures)
          (rx (lit ''ga.js'') # tl (as_patterns (hd analyticsSignatures))) ([], {}) =
        ([\<lparr>an_name = as_name (hd analyticsSignatures), an_type = as_type (hd analyticsSignatures),
            an_evidence = None\<rparr>], {as_name (hd analyticsSignatures)})"
    by simp
  then show ?thesis using a b unfolding d e c[symmetric] by simp
qed

section \<open>An example with a version\<close>

text \<open>The scenario of the specification and of the unit tests for the version
  extractor: a page with \<^verbatim>\<open>ng-version="17.0.0"\<close>.\<close>

lemma angular_version_example:
  "data (detectFrameworks (''<html ng-version='' @ [CHR 0x22] @ ''17.0.0'' @ [CHR 0x22] @ ''><body ng-app=x>'') None)
     = [\<lparr>name = ''Angular'', version = Some ''17.0.0'', confidence = medium,
          category = frontend_framework, evidence = Some ''ng-version''\<rparr>]"
  by code_simp

end
